theory Spec2Isabelle
  imports Main "HOL-Library.Multiset"
begin

section \<open>Data model (types.ts and the closure of handleGenerate in App.tsx)\<close>

text \<open>
  The bulk branch of \<^verbatim>\<open>handleGenerate\<close> (App.tsx) is embedded as an event-driven machine.
  JavaScript runs one synchronous segment of code to completion between two \<^verbatim>\<open>await\<close>s, so
  a transition of the machine is exactly one such segment: the code a worker (or the
  controller) runs from the moment an awaited promise settles until its next \<^verbatim>\<open>await\<close>.
  The provider services are the environment: an event carries the value or the error the
  awaited call settled with.
\<close>

text \<open>
  \<^verbatim>\<open>SearchProvider.TAVILY\<close> is used by App.tsx; the copy of types.ts at hand predates it.
\<close>

datatype AIProvider = AI_GEMINI | AI_DEEPSEEK

datatype SearchProvider = SP_GEMINI | SP_SERPSTACK | SP_TAVILY

record InternalLink =
  link_title :: string
  link_url :: string
  snippet :: "string option"

record BrandResearch =
  brandVoice :: string
  siteArchitecture :: "string list"
  brand_content :: string

text \<open>
  The fields of \<^verbatim>\<open>ArticleConfig\<close> that \<^verbatim>\<open>handleGenerate\<close> reads or writes. The remaining
  fields (word count, tone, ...) are copied unchanged by the spread \<^verbatim>\<open>...config\<close> and play no
  part in the orchestration. \<open>cfgBrandResearch\<close> and \<open>cfgInternalLinks\<close> are the config fields
  \<^verbatim>\<open>cachedBrandResearch\<close> and \<^verbatim>\<open>cachedInternalLinks\<close>; the closure variables of the same
  names are fields of the state below.
\<close>

record ArticleConfig =
  topic :: string
  queueTopics :: "string list option"
  autoOptimize :: bool
  primaryKeywords :: "string list"
  nlpKeywords :: "string list"
  websiteUrl :: "string option"
  deepResearch :: bool
  realTimeData :: bool
  internalLinks :: "InternalLink list option"
  externalLinks :: "InternalLink list option"
  enableExternalLinks :: bool
  provider :: AIProvider
  researchProvider :: "SearchProvider option"
  keywordAnalysisProvider :: "SearchProvider option"
  externalLinkSearchProvider :: "SearchProvider option"
  cfgBrandResearch :: "BrandResearch option"
  cfgInternalLinks :: "InternalLink list option"

datatype Status = Completed | Failed

record Strategy =
  strat_primaryKeywords :: "string list"
  strat_nlpKeywords :: "string list"
  internalLinksCount :: nat
  externalLinksCount :: nat

text \<open>A \<^verbatim>\<open>GeneratedArticle\<close> without its random id and its timestamp.\<close>

record GeneratedArticle =
  title :: string
  content :: string
  sources :: "string list option"
  status :: Status
  strategy :: "Strategy option"

record Progress =
  completed :: nat
  total :: nat

text \<open>
  The provider calls the orchestrator initiates, with their arguments. The second argument
  of the external-link scans (the host name of the website) is left out.
\<close>

datatype call =
    AnalyzeBrandWebsite string
  | ScanForInternalLinksTavily string string
  | ScanForInternalLinks string string "string list" bool
  | GeneratePrimaryKeywordsDeepSeek string
  | GenerateNLPKeywordsDeepSeek string
  | GeneratePrimaryKeywords string
  | GenerateNLPKeywords string
  | ScanForExternalLinksTavily string
  | ScanForExternalLinks string
  | GenerateArticleDeepSeek ArticleConfig
  | GenerateArticle ArticleConfig

text \<open>A thrown JavaScript error: the catch blocks read \<^verbatim>\<open>err.name\<close> and \<^verbatim>\<open>err.message\<close>.\<close>

record js_error =
  err_name :: string
  err_message :: string

datatype payload =
    PTimer
  | PKeywords "string list"
  | PLinks "InternalLink list"
  | PBrand BrandResearch
  | PArticle string "string list"

datatype response = Resolved payload | Rejected js_error

text \<open>The local variables of one iteration of the worker loop.\<close>

record locals =
  ltopic :: string
  topicPrimaryKeywords :: "string list"
  topicNLPKeywords :: "string list"
  topicInternalLinks :: "InternalLink list"
  topicExternalLinks :: "InternalLink list"

text \<open>The \<^verbatim>\<open>await\<close> a worker is suspended at.\<close>

datatype pc =
    AwaitDelay
  | AwaitPrimaryKw
  | AwaitNlpKw
  | AwaitIntLinks
  | AwaitExtLinks
  | AwaitGenerate

text \<open>
  A worker is at the head of its loop (\<open>Idle\<close>, only inside a transition), suspended at an
  \<^verbatim>\<open>await\<close> with its local variables, or has returned. The controller awaits the brand
  pre-fetch, the link pre-scan or \<^verbatim>\<open>Promise.all(workers)\<close>, or is done.
\<close>

datatype worker = Idle | Busy pc locals | Exited

datatype main_pc = MainBrand | MainLinks | MainWorkers | MainDone

text \<open>
  The closure variables of one run and the React state it writes. \<open>aborted\<close> is
  \<^verbatim>\<open>controller.signal.aborted\<close>; \<open>ctrl_ref\<close> is whether \<^verbatim>\<open>abortControllerRef.current\<close> is still
  the controller of this run; \<open>calls\<close> logs the provider calls in the order they are
  initiated.
\<close>

record state =
  queue :: "string list"
  aborted :: bool
  ctrl_ref :: bool
  generatedArticles :: "GeneratedArticle list"
  completedCount :: nat
  bulkProgress :: Progress
  activeTasks :: int
  error :: "string option"
  cachedBrandResearch :: "BrandResearch option"
  cachedInternalLinks :: "InternalLink list"
  main :: main_pc
  workers :: "worker list"
  calls :: "call list"

text \<open>
  The events: the user cancels, the call the controller awaits settles, or the call
  worker \<open>i\<close> awaits settles.
\<close>

datatype event = Cancel | MainResume response | Resume nat response

section \<open>Concurrency policy\<close>

definition topics_of :: "ArticleConfig \<Rightarrow> string list" where
  "topics_of c = (case queueTopics c of None \<Rightarrow> [] | Some ts \<Rightarrow> ts)"

definition isDeepSeekWebMode :: "ArticleConfig \<Rightarrow> bool" where
  "isDeepSeekWebMode c = (provider c = AI_DEEPSEEK \<and> (deepResearch c \<or> realTimeData c))"

definition CONCURRENCY_LIMIT :: "ArticleConfig \<Rightarrow> nat" where
  "CONCURRENCY_LIMIT c = (if isDeepSeekWebMode c then 1 else 5)"

definition pool_size :: "ArticleConfig \<Rightarrow> nat" where
  "pool_size c = min (length (topics_of c)) (CONCURRENCY_LIMIT c)"

section \<open>The per-topic pipeline\<close>

text \<open>\<^verbatim>\<open>config.websiteUrl\<close> is truthy: present and not the empty string.\<close>

definition has_website :: "ArticleConfig \<Rightarrow> bool" where
  "has_website c = (case websiteUrl c of None \<Rightarrow> False | Some u \<Rightarrow> u \<noteq> [])"

definition the_website :: "ArticleConfig \<Rightarrow> string" where
  "the_website c = (case websiteUrl c of None \<Rightarrow> [] | Some u \<Rightarrow> u)"

definition default_links :: "InternalLink list option \<Rightarrow> InternalLink list" where
  "default_links ls = (case ls of None \<Rightarrow> [] | Some xs \<Rightarrow> xs)"

definition init_locals :: "ArticleConfig \<Rightarrow> string \<Rightarrow> locals" where
  "init_locals c t =
     \<lparr> ltopic = t,
       topicPrimaryKeywords = primaryKeywords c,
       topicNLPKeywords = nlpKeywords c,
       topicInternalLinks = default_links (internalLinks c),
       topicExternalLinks = default_links (externalLinks c) \<rparr>"

text \<open>\<^verbatim>\<open>generateWithFallback\<close>: DeepSeek strictly, otherwise Gemini; errors are rethrown.\<close>

definition generateWithFallback :: "ArticleConfig \<Rightarrow> call" where
  "generateWithFallback cfg =
     (if provider cfg = AI_DEEPSEEK then GenerateArticleDeepSeek cfg else GenerateArticle cfg)"

definition singleConfig :: "ArticleConfig \<Rightarrow> state \<Rightarrow> locals \<Rightarrow> ArticleConfig" where
  "singleConfig c s l =
     c \<lparr> topic := ltopic l,
         primaryKeywords := topicPrimaryKeywords l,
         nlpKeywords := topicNLPKeywords l,
         internalLinks := Some (topicInternalLinks l),
         externalLinks := Some (topicExternalLinks l),
         cfgBrandResearch := cachedBrandResearch s,
         cfgInternalLinks :=
           (if cachedInternalLinks s \<noteq> [] then Some (cachedInternalLinks s) else None) \<rparr>"

text \<open>
  Each stage returns the \<^verbatim>\<open>await\<close> the worker is suspended at next, its local variables
  there, and the provider calls it initiated on the way.
\<close>

type_synonym suspension = "pc \<times> locals \<times> call list"

definition gen_stage :: "ArticleConfig \<Rightarrow> state \<Rightarrow> locals \<Rightarrow> suspension" where
  "gen_stage c s l = (AwaitGenerate, l, [generateWithFallback (singleConfig c s l)])"

definition ext_stage :: "ArticleConfig \<Rightarrow> state \<Rightarrow> locals \<Rightarrow> suspension" where
  "ext_stage c s l =
     (if enableExternalLinks c then
        (AwaitExtLinks, l,
         [if provider c = AI_DEEPSEEK \<and>
             (externalLinkSearchProvider c = Some SP_TAVILY \<or> researchProvider c = Some SP_TAVILY)
          then ScanForExternalLinksTavily (ltopic l)
          else ScanForExternalLinks (ltopic l)])
      else gen_stage c s l)"

definition link_stage :: "ArticleConfig \<Rightarrow> state \<Rightarrow> locals \<Rightarrow> suspension" where
  "link_stage c s l =
     (if has_website c then
        (if cachedInternalLinks s \<noteq> [] then
           ext_stage c s (l\<lparr>topicInternalLinks := take 3 (cachedInternalLinks s)\<rparr>)
         else if provider c = AI_DEEPSEEK \<and> researchProvider c = Some SP_TAVILY then
           (AwaitIntLinks, l, [ScanForInternalLinksTavily (the_website c) (ltopic l)])
         else if provider c = AI_GEMINI \<or> researchProvider c = Some SP_GEMINI then
           (AwaitIntLinks, l,
            [ScanForInternalLinks (the_website c) (ltopic l) (topicPrimaryKeywords l)
               (deepResearch c)])
         else ext_stage c s (l\<lparr>topicInternalLinks := []\<rparr>))
      else ext_stage c s l)"

definition usesDeepSeekKeywords :: "ArticleConfig \<Rightarrow> bool" where
  "usesDeepSeekKeywords c =
     (let keywordProvider =
            (case keywordAnalysisProvider c of
               Some p \<Rightarrow> p
             | None \<Rightarrow> (if provider c = AI_DEEPSEEK then SP_TAVILY else SP_GEMINI))
      in keywordProvider = SP_TAVILY \<or> provider c = AI_DEEPSEEK)"

definition try_body :: "ArticleConfig \<Rightarrow> state \<Rightarrow> string \<Rightarrow> suspension" where
  "try_body c s t =
     (if autoOptimize c then
        (AwaitPrimaryKw, init_locals c t,
         [if usesDeepSeekKeywords c then GeneratePrimaryKeywordsDeepSeek t
          else GeneratePrimaryKeywords t])
      else gen_stage c s (init_locals c t))"

definition suspend :: "nat \<Rightarrow> suspension \<Rightarrow> state \<Rightarrow> state" where
  "suspend i x s =
     (case x of (p, l, ks) \<Rightarrow>
        s\<lparr>workers := (workers s)[i := Busy p l], calls := calls s @ ks\<rparr>)"

definition exit_worker :: "nat \<Rightarrow> state \<Rightarrow> state" where
  "exit_worker i s = s\<lparr>workers := (workers s)[i := Exited]\<rparr>"

text \<open>
  The head of the worker loop up to its first \<^verbatim>\<open>await\<close>: the loop condition, the
  synchronous \<^verbatim>\<open>queue.shift()\<close>, the \<^verbatim>\<open>if (!topic) break\<close> (an empty string is falsy), and
  either the artificial delay of the DeepSeek web mode or the start of the pipeline.
\<close>

definition loop_head :: "ArticleConfig \<Rightarrow> nat \<Rightarrow> state \<Rightarrow> state" where
  "loop_head c i s =
     (case queue s of
        [] \<Rightarrow> exit_worker i s
      | t # rest \<Rightarrow>
          if aborted s then exit_worker i s
          else if t = [] then exit_worker i (s\<lparr>queue := rest\<rparr>)
          else
            (let s' = s\<lparr>queue := rest, activeTasks := activeTasks s + 1\<rparr>
             in if isDeepSeekWebMode c then suspend i (AwaitDelay, init_locals c t, []) s'
                else suspend i (try_body c s' t) s'))"

definition completed_article :: "locals \<Rightarrow> string \<Rightarrow> string list \<Rightarrow> GeneratedArticle" where
  "completed_article l txt srcs =
     \<lparr> title = ltopic l, content = txt, sources = Some srcs, status = Completed,
       strategy = Some \<lparr> strat_primaryKeywords = topicPrimaryKeywords l,
                         strat_nlpKeywords = topicNLPKeywords l,
                         internalLinksCount = length (topicInternalLinks l),
                         externalLinksCount = length (topicExternalLinks l) \<rparr> \<rparr>"

definition failed_article :: "locals \<Rightarrow> js_error \<Rightarrow> GeneratedArticle" where
  "failed_article l e =
     \<lparr> title = ltopic l, content = ''Error generating content: '' @ err_message e,
       sources = None, status = Failed, strategy = None \<rparr>"

definition finally_block :: "nat \<Rightarrow> state \<Rightarrow> state" where
  "finally_block i s =
     s\<lparr> completedCount := completedCount s + 1,
        bulkProgress := (bulkProgress s)\<lparr>completed := completedCount s + 1\<rparr>,
        activeTasks := activeTasks s - 1,
        workers := (workers s)[i := Idle] \<rparr>"

definition report :: "nat \<Rightarrow> GeneratedArticle \<Rightarrow> state \<Rightarrow> state" where
  "report i a s = finally_block i (s\<lparr>generatedArticles := generatedArticles s @ [a]\<rparr>)"

text \<open>
  The segment of the pipeline a worker runs when a call of the keyword, link or delay
  stage settles: a failure of these stages is caught and logged, and the pipeline goes on
  with the values it had.
\<close>

definition pipeline_step :: "ArticleConfig \<Rightarrow> state \<Rightarrow> pc \<Rightarrow> locals \<Rightarrow> response \<Rightarrow> suspension option" where
  "pipeline_step c s p l r =
     (case p of
        AwaitDelay \<Rightarrow>
          (case r of
             Resolved PTimer \<Rightarrow> Some (try_body c s (ltopic l))
           | _ \<Rightarrow> None)
      | AwaitPrimaryKw \<Rightarrow>
          (case r of
             Resolved (PKeywords ks) \<Rightarrow>
               Some (AwaitNlpKw, l\<lparr>topicPrimaryKeywords := ks\<rparr>,
                     [if usesDeepSeekKeywords c then GenerateNLPKeywordsDeepSeek (ltopic l)
                      else GenerateNLPKeywords (ltopic l)])
           | Resolved _ \<Rightarrow> None
           | Rejected e \<Rightarrow> Some (link_stage c s l))
      | AwaitNlpKw \<Rightarrow>
          (case r of
             Resolved (PKeywords ks) \<Rightarrow> Some (link_stage c s (l\<lparr>topicNLPKeywords := ks\<rparr>))
           | Resolved _ \<Rightarrow> None
           | Rejected e \<Rightarrow> Some (link_stage c s l))
      | AwaitIntLinks \<Rightarrow>
          (case r of
             Resolved (PLinks ls) \<Rightarrow> Some (ext_stage c s (l\<lparr>topicInternalLinks := take 3 ls\<rparr>))
           | Resolved _ \<Rightarrow> None
           | Rejected e \<Rightarrow> Some (ext_stage c s l))
      | AwaitExtLinks \<Rightarrow>
          (case r of
             Resolved (PLinks ls) \<Rightarrow> Some (gen_stage c s (l\<lparr>topicExternalLinks := take 5 ls\<rparr>))
           | Resolved _ \<Rightarrow> None
           | Rejected e \<Rightarrow> Some (gen_stage c s l))
      | AwaitGenerate \<Rightarrow> None)"

text \<open>
  The segment a worker runs when its generation call settles: the report of a completed
  article, or the outer \<^verbatim>\<open>catch\<close> (return on AbortError, a failed entry otherwise), the
  \<^verbatim>\<open>finally\<close> block, and the next turn of the loop.
\<close>

definition settle_generation :: "ArticleConfig \<Rightarrow> nat \<Rightarrow> locals \<Rightarrow> response \<Rightarrow> state \<Rightarrow> state option" where
  "settle_generation c i l r s =
     (case r of
        Resolved (PArticle txt srcs) \<Rightarrow>
          Some (loop_head c i (report i (completed_article l txt srcs) s))
      | Resolved _ \<Rightarrow> None
      | Rejected e \<Rightarrow>
          if err_name e = ''AbortError'' then Some (exit_worker i (finally_block i s))
          else Some (loop_head c i (report i (failed_article l e) s)))"

definition resume :: "ArticleConfig \<Rightarrow> nat \<Rightarrow> pc \<Rightarrow> locals \<Rightarrow> response \<Rightarrow> state \<Rightarrow> state option" where
  "resume c i p l r s =
     (if p = AwaitGenerate then settle_generation c i l r s
      else map_option (\<lambda>x. suspend i x s) (pipeline_step c s p l r))"

section \<open>The controller\<close>

text \<open>
  The \<^verbatim>\<open>finally\<close> of \<^verbatim>\<open>handleGenerate\<close>, run when \<^verbatim>\<open>Promise.all(workers)\<close> resolves: it
  resets the progress only while the controller of this run is still the current one.
\<close>

definition finish :: "state \<Rightarrow> state" where
  "finish s =
     (if ctrl_ref s then
        s\<lparr> main := MainDone, ctrl_ref := False,
           bulkProgress := \<lparr>completed = 0, total = 0\<rparr>, activeTasks := 0 \<rparr>
      else s\<lparr>main := MainDone\<rparr>)"

definition check_done :: "state \<Rightarrow> state" where
  "check_done s =
     (if main s = MainWorkers \<and> list_all (\<lambda>w. w = Exited) (workers s) then finish s else s)"

text \<open>
  \<^verbatim>\<open>Array(Math.min(topics.length, CONCURRENCY_LIMIT)).fill(null).map((_, i) => worker(i))\<close>:
  the workers are started one after the other, each running to its first \<^verbatim>\<open>await\<close>.
\<close>

definition spawn :: "ArticleConfig \<Rightarrow> state \<Rightarrow> state" where
  "spawn c s =
     check_done
       ((fold (loop_head c) [0 ..< pool_size c]
           (s\<lparr>workers := replicate (pool_size c) Idle\<rparr>)) \<lparr>main := MainWorkers\<rparr>)"

definition seed_topic :: "ArticleConfig \<Rightarrow> string" where
  "seed_topic c =
     (case topics_of c of [] \<Rightarrow> ''general'' | t # _ \<Rightarrow> if t = [] then ''general'' else t)"

definition prescan_call :: "ArticleConfig \<Rightarrow> call option" where
  "prescan_call c =
     (if provider c = AI_DEEPSEEK \<and> researchProvider c = Some SP_TAVILY then
        Some (ScanForInternalLinksTavily (the_website c) (seed_topic c))
      else if provider c = AI_GEMINI \<or> researchProvider c = Some SP_GEMINI then
        Some (ScanForInternalLinks (the_website c) (seed_topic c) (primaryKeywords c)
                (deepResearch c))
      else None)"

definition prefetch_links :: "ArticleConfig \<Rightarrow> state \<Rightarrow> state" where
  "prefetch_links c s =
     (if has_website c \<and> autoOptimize c then
        (case prescan_call c of
           Some k \<Rightarrow> s\<lparr>main := MainLinks, calls := calls s @ [k]\<rparr>
         | None \<Rightarrow> spawn c s)
      else spawn c s)"

text \<open>
  The brand pre-fetch; \<open>tavilyKey\<close> is whether \<^verbatim>\<open>getTavilyApiKey()\<close> returns a key. The
  dynamic import of the Tavily module is not a provider call and is not a transition of
  its own.
\<close>

definition prefetch_brand :: "ArticleConfig \<Rightarrow> bool \<Rightarrow> state \<Rightarrow> state" where
  "prefetch_brand c tavilyKey s =
     (if deepResearch c \<and> has_website c \<and> provider c = AI_DEEPSEEK \<and> tavilyKey then
        s\<lparr>main := MainBrand, calls := calls s @ [AnalyzeBrandWebsite (the_website c)]\<rparr>
      else prefetch_links c s)"

definition fresh :: state where
  "fresh =
     \<lparr> queue = [], aborted = False, ctrl_ref = True, generatedArticles = [],
       completedCount = 0, bulkProgress = \<lparr>completed = 0, total = 0\<rparr>, activeTasks = 0,
       error = None, cachedBrandResearch = None, cachedInternalLinks = [],
       main = MainDone, workers = [], calls = [] \<rparr>"

text \<open>
  The bulk branch of \<^verbatim>\<open>handleGenerate\<close> up to its first \<^verbatim>\<open>await\<close>. The error thrown for an
  empty topic list is caught by the function's own \<^verbatim>\<open>catch\<close>, which stores its message
  with \<^verbatim>\<open>setError\<close>. \<open>generatedArticles\<close> holds the entries this run appends.
\<close>

definition handleGenerate :: "ArticleConfig \<Rightarrow> bool \<Rightarrow> state" where
  "handleGenerate c tavilyKey =
     (if topics_of c = [] then
        finish (fresh\<lparr>error := Some ''No topics provided for bulk generation''\<rparr>)
      else
        prefetch_brand c tavilyKey
          (fresh\<lparr> bulkProgress := \<lparr>completed = 0, total = length (topics_of c)\<rparr>,
                  queue := topics_of c \<rparr>))"

text \<open>
  \<^verbatim>\<open>handleStopGeneration\<close>, the cancel action of the user interface: it aborts the
  controller of the run, gives up the reference to it and resets the progress display.
\<close>

definition handleStopGeneration :: "state \<Rightarrow> state" where
  "handleStopGeneration s =
     (if ctrl_ref s then
        s\<lparr> aborted := True, ctrl_ref := False,
           bulkProgress := \<lparr>completed = 0, total = 0\<rparr>, activeTasks := 0 \<rparr>
      else s)"

definition main_resume :: "ArticleConfig \<Rightarrow> response \<Rightarrow> state \<Rightarrow> state option" where
  "main_resume c r s =
     (case main s of
        MainBrand \<Rightarrow>
          (case r of
             Resolved (PBrand b) \<Rightarrow> Some (prefetch_links c (s\<lparr>cachedBrandResearch := Some b\<rparr>))
           | Resolved _ \<Rightarrow> None
           | Rejected e \<Rightarrow> Some (prefetch_links c s))
      | MainLinks \<Rightarrow>
          (case r of
             Resolved (PLinks ls) \<Rightarrow> Some (spawn c (s\<lparr>cachedInternalLinks := ls\<rparr>))
           | Resolved _ \<Rightarrow> None
           | Rejected e \<Rightarrow> Some (spawn c s))
      | _ \<Rightarrow> None)"

definition step :: "ArticleConfig \<Rightarrow> event \<Rightarrow> state \<Rightarrow> state option" where
  "step c e s =
     (case e of
        Cancel \<Rightarrow> Some (handleStopGeneration s)
      | MainResume r \<Rightarrow> main_resume c r s
      | Resume i r \<Rightarrow>
          (if i < length (workers s) then
             (case workers s ! i of
                Busy p l \<Rightarrow> map_option check_done (resume c i p l r s)
              | _ \<Rightarrow> None)
           else None))"

fun exec_from :: "ArticleConfig \<Rightarrow> event list \<Rightarrow> state \<Rightarrow> state option" where
  "exec_from c [] s = Some s"
| "exec_from c (e # es) s =
     (case step c e s of None \<Rightarrow> None | Some s' \<Rightarrow> exec_from c es s')"

definition exec :: "ArticleConfig \<Rightarrow> bool \<Rightarrow> event list \<Rightarrow> state option" where
  "exec c tavilyKey es = exec_from c es (handleGenerate c tavilyKey)"

section \<open>Observations on a run\<close>

text \<open>
  The topic a transition drops without an entry: the one of a worker whose generation call
  rejects with an error named AbortError, which the outer \<^verbatim>\<open>catch\<close> answers with a bare
  \<^verbatim>\<open>return\<close>. It is a function of the state and the event, like the transition itself.
\<close>

definition abort_topic :: "state \<Rightarrow> event \<Rightarrow> string list" where
  "abort_topic s e =
     (case e of
        Resume i r \<Rightarrow>
          (case r of
             Rejected err \<Rightarrow>
               (if err_name err = ''AbortError'' \<and> i < length (workers s) then
                  (case workers s ! i of
                     Busy p l \<Rightarrow> if p = AwaitGenerate then [ltopic l] else []
                   | _ \<Rightarrow> [])
                else [])
           | Resolved x \<Rightarrow> [])
      | _ \<Rightarrow> [])"

text \<open>The topics dropped in this way along a run, in the order of the events.\<close>

fun aborted_topics_from :: "ArticleConfig \<Rightarrow> event list \<Rightarrow> state \<Rightarrow> string list" where
  "aborted_topics_from c [] s = []"
| "aborted_topics_from c (e # es) s =
     abort_topic s e @
     (case step c e s of None \<Rightarrow> [] | Some s' \<Rightarrow> aborted_topics_from c es s')"

definition aborted_topics :: "ArticleConfig \<Rightarrow> bool \<Rightarrow> event list \<Rightarrow> string list" where
  "aborted_topics c tavilyKey es = aborted_topics_from c es (handleGenerate c tavilyKey)"

text \<open>
  What the generation call can settle with is a property of the provider, not of the
  worker: it rejects with an error named AbortError only when the signal is aborted. Every
  \<^verbatim>\<open>DOMException('Aborted', 'AbortError')\<close> of \<^verbatim>\<open>generateArticle\<close> (geminiService.ts) is
  thrown under \<^verbatim>\<open>signal.aborted\<close> or from the signal's abort listener, every other error
  leaves it as a plain \<^verbatim>\<open>Error\<close>, and the \<^verbatim>\<open>fetch\<close> of \<^verbatim>\<open>generateArticleDeepSeek\<close> rejects
  so only for an aborted signal. A call that is in flight when the signal is aborted may
  still settle with an article or with another error. The transition relation accepts
  every settlement; a run in which the providers behave as they do is one that respects
  the signal.
\<close>

definition abort_respected :: "state \<Rightarrow> event \<Rightarrow> bool" where
  "abort_respected s e = (abort_topic s e = [] \<or> aborted s)"

fun signal_respected_from :: "ArticleConfig \<Rightarrow> event list \<Rightarrow> state \<Rightarrow> bool" where
  "signal_respected_from c [] s = True"
| "signal_respected_from c (e # es) s =
     (abort_respected s e \<and>
      (case step c e s of None \<Rightarrow> True | Some s' \<Rightarrow> signal_respected_from c es s'))"

definition signal_respected :: "ArticleConfig \<Rightarrow> bool \<Rightarrow> event list \<Rightarrow> bool" where
  "signal_respected c tavilyKey es = signal_respected_from c es (handleGenerate c tavilyKey)"

section \<open>The link scan of the provider\<close>




section \<open>Observations on a state\<close>

text \<open>The topic a worker holds while it is between its claim and its report.\<close>

fun wtopic :: "worker \<Rightarrow> string multiset" where
  "wtopic (Busy p l) = {#ltopic l#}"
| "wtopic Idle = {#}"
| "wtopic Exited = {#}"

definition inflight :: "state \<Rightarrow> string multiset" where
  "inflight s = sum_list (map wtopic (workers s))"

definition emitted :: "state \<Rightarrow> string multiset" where
  "emitted s = mset (map title (generatedArticles s))"

text \<open>Every topic that is reported, held by a worker, or still queued.\<close>

definition accounted :: "state \<Rightarrow> string multiset" where
  "accounted s = emitted s + inflight s + mset (queue s)"

text \<open>A valid batch: a non-empty list of non-empty topics.\<close>

definition valid_config :: "ArticleConfig \<Rightarrow> bool" where
  "valid_config c = (topics_of c \<noteq> [] \<and> list_all (\<lambda>t. t \<noteq> []) (topics_of c))"

definition susp_topic :: "suspension \<Rightarrow> string" where
  "susp_topic x = ltopic (fst (snd x))"

fun is_brand_call :: "call \<Rightarrow> bool" where
  "is_brand_call (AnalyzeBrandWebsite u) = True"
| "is_brand_call _ = False"

fun is_link_scan :: "call \<Rightarrow> bool" where
  "is_link_scan (ScanForInternalLinksTavily u t) = True"
| "is_link_scan (ScanForInternalLinks u t ks d) = True"
| "is_link_scan _ = False"

fun gen_config :: "call \<Rightarrow> ArticleConfig option" where
  "gen_config (GenerateArticleDeepSeek cfg) = Some cfg"
| "gen_config (GenerateArticle cfg) = Some cfg"
| "gen_config _ = None"

text \<open>The topic a provider call is made for (the brand analysis is made for none).\<close>

fun call_topic :: "call \<Rightarrow> string option" where
  "call_topic (AnalyzeBrandWebsite u) = None"
| "call_topic (ScanForInternalLinksTavily u t) = Some t"
| "call_topic (ScanForInternalLinks u t ks d) = Some t"
| "call_topic (GeneratePrimaryKeywordsDeepSeek t) = Some t"
| "call_topic (GenerateNLPKeywordsDeepSeek t) = Some t"
| "call_topic (GeneratePrimaryKeywords t) = Some t"
| "call_topic (GenerateNLPKeywords t) = Some t"
| "call_topic (ScanForExternalLinksTavily t) = Some t"
| "call_topic (ScanForExternalLinks t) = Some t"
| "call_topic (GenerateArticleDeepSeek cfg) = Some (topic cfg)"
| "call_topic (GenerateArticle cfg) = Some (topic cfg)"

definition brand_calls :: "state \<Rightarrow> call list" where
  "brand_calls s = filter is_brand_call (calls s)"

definition link_scans :: "state \<Rightarrow> call list" where
  "link_scans s = filter is_link_scan (calls s)"

definition gen_configs :: "state \<Rightarrow> ArticleConfig list" where
  "gen_configs s = List.map_filter gen_config (calls s)"

definition run_finished :: "state \<Rightarrow> bool" where
  "run_finished s = (main s = MainDone)"

section \<open>Invariants of a run\<close>

text \<open>
  The accounting invariant, for a state and the list \<open>d\<close> of the topics dropped on the way
  to it: no topic is counted twice, nothing is lost in a valid batch, the counter
  \<open>completedCount\<close> covers the reported and the dropped topics, and while the run is not
  cancelled and nothing was dropped a worker leaves only an empty queue.
\<close>

definition inv_acc :: "ArticleConfig \<Rightarrow> string list \<Rightarrow> state \<Rightarrow> bool" where
  "inv_acc c d s =
     (accounted s + mset d \<subseteq># mset (topics_of c) \<and>
      (valid_config c \<longrightarrow> accounted s + mset d = mset (topics_of c)) \<and>
      length (generatedArticles s) + length d = completedCount s \<and>
      (valid_config c \<and> \<not> aborted s \<and> d = [] \<and> Exited \<in> set (workers s) \<longrightarrow> queue s = []))"

text \<open>
  The shape of a reachable state: no worker exists before the pre-fetches are over, the
  pool has its fixed size afterwards, a run is finished exactly when all its workers have
  exited, no worker is left between two segments, and a cancelled run no longer owns the
  current controller.
\<close>

definition inv_wf :: "ArticleConfig \<Rightarrow> state \<Rightarrow> bool" where
  "inv_wf c s =
     (topics_of c \<noteq> [] \<and>
      (main s = MainBrand \<or> main s = MainLinks \<longrightarrow>
         workers s = [] \<and> queue s = topics_of c \<and> generatedArticles s = [] \<and>
         completedCount s = 0) \<and>
      (aborted s \<longrightarrow> \<not> ctrl_ref s) \<and>
      (main s = MainDone \<longrightarrow> list_all (\<lambda>w. w = Exited) (workers s)) \<and>
      (main s = MainWorkers \<longrightarrow> \<not> list_all (\<lambda>w. w = Exited) (workers s)) \<and>
      (main s = MainWorkers \<or> main s = MainDone \<longrightarrow> length (workers s) = pool_size c) \<and>
      Idle \<notin> set (workers s) \<and>
      error s = None)"

text \<open>
  The cache invariant. \<open>wl_ok\<close> says what the local link list of a suspended worker is:
  the configured default up to the link stage, and the first three cached links after it
  whenever the cache is populated; a worker awaits a link scan only with an empty cache.
  \<open>gen_ok\<close> says the same of the configuration handed to a generation call.
\<close>

fun wl_ok :: "ArticleConfig \<Rightarrow> InternalLink list \<Rightarrow> worker \<Rightarrow> bool" where
  "wl_ok c cache (Busy p l) =
     (case p of
        AwaitDelay \<Rightarrow> True
      | AwaitPrimaryKw \<Rightarrow>
          autoOptimize c \<and> topicInternalLinks l = default_links (internalLinks c)
      | AwaitNlpKw \<Rightarrow>
          autoOptimize c \<and> topicInternalLinks l = default_links (internalLinks c)
      | AwaitIntLinks \<Rightarrow>
          autoOptimize c \<and> has_website c \<and> cache = [] \<and>
          topicInternalLinks l = default_links (internalLinks c)
      | AwaitExtLinks \<Rightarrow> (cache \<noteq> [] \<longrightarrow> topicInternalLinks l = take 3 cache)
      | AwaitGenerate \<Rightarrow> (cache \<noteq> [] \<longrightarrow> topicInternalLinks l = take 3 cache))"
| "wl_ok c cache Idle = True"
| "wl_ok c cache Exited = True"

definition gen_ok :: "InternalLink list \<Rightarrow> ArticleConfig \<Rightarrow> bool" where
  "gen_ok cache cfg =
     (cfgInternalLinks cfg = (if cache \<noteq> [] then Some cache else None) \<and>
      (cache \<noteq> [] \<longrightarrow> internalLinks cfg = Some (take 3 cache)))"

definition call_ok :: "InternalLink list \<Rightarrow> call \<Rightarrow> bool" where
  "call_ok cache k =
     (\<not> is_brand_call k \<and> (is_link_scan k \<longrightarrow> cache = []) \<and>
      (case gen_config k of None \<Rightarrow> True | Some cfg \<Rightarrow> gen_ok cache cfg))"

definition susp_ok :: "ArticleConfig \<Rightarrow> InternalLink list \<Rightarrow> suspension \<Rightarrow> bool" where
  "susp_ok c cache x =
     (wl_ok c cache (Busy (fst x) (fst (snd x))) \<and> list_all (call_ok cache) (snd (snd x)))"

definition prescan_list :: "ArticleConfig \<Rightarrow> call list" where
  "prescan_list c = (case prescan_call c of None \<Rightarrow> [] | Some k \<Rightarrow> [k])"

definition inv_cache :: "ArticleConfig \<Rightarrow> state \<Rightarrow> bool" where
  "inv_cache c s =
     ((cachedInternalLinks s \<noteq> [] \<longrightarrow>
         has_website c \<and> autoOptimize c \<and> prescan_call c \<noteq> None \<and>
         link_scans s = prescan_list c) \<and>
      list_all (wl_ok c (cachedInternalLinks s)) (workers s) \<and>
      length (brand_calls s) \<le> 1 \<and>
      list_all (gen_ok (cachedInternalLinks s)) (gen_configs s))"




definition brand_ok :: "state \<Rightarrow> suspension \<Rightarrow> bool" where
  "brand_ok s x =
     list_all (\<lambda>cfg. cfgBrandResearch cfg = cachedBrandResearch s)
       (List.map_filter gen_config (snd (snd x)))"

text \<open>While the controller is still pre-fetching, the cache is empty.\<close>

definition inv_pre :: "ArticleConfig \<Rightarrow> state \<Rightarrow> bool" where
  "inv_pre c s =
     ((main s = MainBrand \<longrightarrow>
         cachedInternalLinks s = [] \<and> link_scans s = [] \<and> gen_configs s = []) \<and>
      (main s = MainLinks \<longrightarrow>
         cachedInternalLinks s = [] \<and> has_website c \<and> autoOptimize c \<and>
         prescan_call c \<noteq> None \<and> link_scans s = prescan_list c \<and> gen_configs s = []))"

text \<open>
  A bound on the work that is left: the awaits a suspended worker can still pass through
  for its topic, seven for every queued topic, and the pre-fetches of the controller.
\<close>

fun pc_rank :: "pc \<Rightarrow> nat" where
  "pc_rank AwaitDelay = 6"
| "pc_rank AwaitPrimaryKw = 5"
| "pc_rank AwaitNlpKw = 4"
| "pc_rank AwaitIntLinks = 3"
| "pc_rank AwaitExtLinks = 2"
| "pc_rank AwaitGenerate = 1"

fun worker_rank :: "worker \<Rightarrow> nat" where
  "worker_rank (Busy p l) = pc_rank p"
| "worker_rank Idle = 0"
| "worker_rank Exited = 0"

fun main_rank :: "main_pc \<Rightarrow> nat" where
  "main_rank MainBrand = 2"
| "main_rank MainLinks = 1"
| "main_rank MainWorkers = 0"
| "main_rank MainDone = 0"

definition work :: "state \<Rightarrow> nat" where
  "work s = 7 * length (queue s) + sum_list (map worker_rank (workers s))"

definition remaining :: "state \<Rightarrow> nat" where
  "remaining s = main_rank (main s) + work s"

text \<open>The provider calls that have settled in a run: every event but the cancel action.\<close>

definition settlements :: "event list \<Rightarrow> nat" where
  "settlements es = length (filter (\<lambda>e. e \<noteq> Cancel) es)"

section \<open>Concrete batches\<close>

text \<open>Two topics on the default provider, no automatic optimisation, no website.\<close>

definition demo_config :: ArticleConfig where
  "demo_config =
     \<lparr> topic = [], queueTopics = Some [''A'', ''B''], autoOptimize = False,
       primaryKeywords = [], nlpKeywords = [], websiteUrl = None, deepResearch = False,
       realTimeData = False, internalLinks = None, externalLinks = None,
       enableExternalLinks = False, provider = AI_GEMINI, researchProvider = None,
       keywordAnalysisProvider = None, externalLinkSearchProvider = None,
       cfgBrandResearch = None, cfgInternalLinks = None \<rparr>"

definition boom :: js_error where
  "boom = \<lparr> err_name = ''Error'', err_message = ''boom'' \<rparr>"

text \<open>
  The error \<^verbatim>\<open>generateArticleDeepSeek\<close> throws first of all when no API key is stored
  (deepseekService.ts), whatever the state of the abort signal.
\<close>

definition missing_key :: js_error where
  "missing_key =
     \<lparr> err_name = ''Error'',
       err_message = ''DeepSeek API Key is missing. Please add your API Key in the settings.'' \<rparr>"

definition abort_error :: js_error where
  "abort_error = \<lparr> err_name = ''AbortError'', err_message = ''Aborted'' \<rparr>"

definition contents :: "state \<Rightarrow> string list" where
  "contents s = map content (generatedArticles s)"

definition statuses :: "state \<Rightarrow> Status list" where
  "statuses s = map status (generatedArticles s)"

definition entry_count :: "state \<Rightarrow> nat" where
  "entry_count s = length (generatedArticles s)"

text \<open>Three topics with a website and the automatic optimisation pipeline.\<close>

definition site_config :: ArticleConfig where
  "site_config =
     demo_config \<lparr> queueTopics := Some [''A'', ''B'', ''C''], autoOptimize := True,
                   websiteUrl := Some ''example.com'' \<rparr>"

definition mk_link :: "string \<Rightarrow> string \<Rightarrow> InternalLink" where
  "mk_link t u = \<lparr> link_title = t, link_url = u, snippet = None \<rparr>"

definition demo_links :: "InternalLink list" where
  "demo_links = [mk_link ''one'' ''/1'', mk_link ''two'' ''/2'', mk_link ''three'' ''/3'',
                 mk_link ''four'' ''/4'']"

text \<open>Seven topics: more than the pool takes at once.\<close>

definition seven_config :: ArticleConfig where
  "seven_config =
     demo_config \<lparr> queueTopics :=
                     Some [''T1'', ''T2'', ''T3'', ''T4'', ''T5'', ''T6'', ''T7''] \<rparr>"

text \<open>The same seven topics on DeepSeek with web research: the serial mode.\<close>

definition serial_config :: ArticleConfig where
  "serial_config = seven_config \<lparr> provider := AI_DEEPSEEK, realTimeData := True \<rparr>"

text \<open>One topic.\<close>

definition single_config :: ArticleConfig where
  "single_config = demo_config \<lparr> queueTopics := Some [''A''] \<rparr>"




section \<open>Basic facts about the segments\<close>


lemma suspend_fields [simp]:
  "queue (suspend i x s) = queue s"
  "aborted (suspend i x s) = aborted s"
  "ctrl_ref (suspend i x s) = ctrl_ref s"
  "generatedArticles (suspend i x s) = generatedArticles s"
  "completedCount (suspend i x s) = completedCount s"
  "bulkProgress (suspend i x s) = bulkProgress s"
  "activeTasks (suspend i x s) = activeTasks s"
  "error (suspend i x s) = error s"
  "cachedBrandResearch (suspend i x s) = cachedBrandResearch s"
  "cachedInternalLinks (suspend i x s) = cachedInternalLinks s"
  "main (suspend i x s) = main s"
  "workers (suspend i x s) = (workers s)[i := Busy (fst x) (fst (snd x))]"
  "calls (suspend i x s) = calls s @ snd (snd x)"
  by (simp_all add: suspend_def split: prod.split)

lemma exit_worker_fields [simp]:
  "queue (exit_worker i s) = queue s"
  "aborted (exit_worker i s) = aborted s"
  "ctrl_ref (exit_worker i s) = ctrl_ref s"
  "generatedArticles (exit_worker i s) = generatedArticles s"
  "completedCount (exit_worker i s) = completedCount s"
  "bulkProgress (exit_worker i s) = bulkProgress s"
  "activeTasks (exit_worker i s) = activeTasks s"
  "error (exit_worker i s) = error s"
  "cachedBrandResearch (exit_worker i s) = cachedBrandResearch s"
  "cachedInternalLinks (exit_worker i s) = cachedInternalLinks s"
  "main (exit_worker i s) = main s"
  "workers (exit_worker i s) = (workers s)[i := Exited]"
  "calls (exit_worker i s) = calls s"
  by (simp_all add: exit_worker_def)

lemma finally_block_fields [simp]:
  "queue (finally_block i s) = queue s"
  "aborted (finally_block i s) = aborted s"
  "ctrl_ref (finally_block i s) = ctrl_ref s"
  "generatedArticles (finally_block i s) = generatedArticles s"
  "completedCount (finally_block i s) = completedCount s + 1"
  "bulkProgress (finally_block i s) = (bulkProgress s)\<lparr>completed := completedCount s + 1\<rparr>"
  "activeTasks (finally_block i s) = activeTasks s - 1"
  "error (finally_block i s) = error s"
  "cachedBrandResearch (finally_block i s) = cachedBrandResearch s"
  "cachedInternalLinks (finally_block i s) = cachedInternalLinks s"
  "main (finally_block i s) = main s"
  "workers (finally_block i s) = (workers s)[i := Idle]"
  "calls (finally_block i s) = calls s"
  by (simp_all add: finally_block_def)

lemma report_fields [simp]:
  "queue (report i a s) = queue s"
  "aborted (report i a s) = aborted s"
  "ctrl_ref (report i a s) = ctrl_ref s"
  "generatedArticles (report i a s) = generatedArticles s @ [a]"
  "completedCount (report i a s) = completedCount s + 1"
  "bulkProgress (report i a s) = (bulkProgress s)\<lparr>completed := completedCount s + 1\<rparr>"
  "activeTasks (report i a s) = activeTasks s - 1"
  "error (report i a s) = error s"
  "cachedBrandResearch (report i a s) = cachedBrandResearch s"
  "cachedInternalLinks (report i a s) = cachedInternalLinks s"
  "main (report i a s) = main s"
  "workers (report i a s) = (workers s)[i := Idle]"
  "calls (report i a s) = calls s"
  by (simp_all add: report_def)

lemma finish_fields [simp]:
  "queue (finish s) = queue s"
  "aborted (finish s) = aborted s"
  "ctrl_ref (finish s) = False"
  "generatedArticles (finish s) = generatedArticles s"
  "completedCount (finish s) = completedCount s"
  "error (finish s) = error s"
  "cachedBrandResearch (finish s) = cachedBrandResearch s"
  "cachedInternalLinks (finish s) = cachedInternalLinks s"
  "main (finish s) = MainDone"
  "workers (finish s) = workers s"
  "calls (finish s) = calls s"
  by (simp_all add: finish_def)

lemma check_done_fields [simp]:
  "queue (check_done s) = queue s"
  "aborted (check_done s) = aborted s"
  "generatedArticles (check_done s) = generatedArticles s"
  "completedCount (check_done s) = completedCount s"
  "error (check_done s) = error s"
  "cachedBrandResearch (check_done s) = cachedBrandResearch s"
  "cachedInternalLinks (check_done s) = cachedInternalLinks s"
  "workers (check_done s) = workers s"
  "calls (check_done s) = calls s"
  by (simp_all add: check_done_def)

lemma handleStopGeneration_fields [simp]:
  "queue (handleStopGeneration s) = queue s"
  "aborted (handleStopGeneration s) = (aborted s \<or> ctrl_ref s)"
  "ctrl_ref (handleStopGeneration s) = False"
  "generatedArticles (handleStopGeneration s) = generatedArticles s"
  "completedCount (handleStopGeneration s) = completedCount s"
  "error (handleStopGeneration s) = error s"
  "cachedBrandResearch (handleStopGeneration s) = cachedBrandResearch s"
  "cachedInternalLinks (handleStopGeneration s) = cachedInternalLinks s"
  "main (handleStopGeneration s) = main s"
  "workers (handleStopGeneration s) = workers s"
  "calls (handleStopGeneration s) = calls s"
  by (simp_all add: handleStopGeneration_def)

lemma stage_topics [simp]:
  "susp_topic (gen_stage c s l) = ltopic l"
  "susp_topic (ext_stage c s l) = ltopic l"
  "susp_topic (link_stage c s l) = ltopic l"
  "susp_topic (try_body c s t) = t"
  by (simp_all add: susp_topic_def gen_stage_def ext_stage_def link_stage_def try_body_def
      init_locals_def)

text \<open>The three ways the head of the loop can go.\<close>

lemma loop_head_cases:
  obtains
    (leave) "queue s = [] \<or> aborted s" "loop_head c i s = exit_worker i s"
  | (falsy) rest where "queue s = [] # rest" "\<not> aborted s"
      "loop_head c i s = exit_worker i (s\<lparr>queue := rest\<rparr>)"
  | (claim) t rest x where "queue s = t # rest" "t \<noteq> []" "\<not> aborted s"
      "loop_head c i s = suspend i x (s\<lparr>queue := rest, activeTasks := activeTasks s + 1\<rparr>)"
      "susp_topic x = t"
      "x = (AwaitDelay, init_locals c t, []) \<or>
       x = try_body c (s\<lparr>queue := rest, activeTasks := activeTasks s + 1\<rparr>) t"
proof (cases "queue s")
  case Nil
  then show ?thesis using leave by (simp add: loop_head_def)
next
  case (Cons t rest)
  show ?thesis
  proof (cases "aborted s")
    case True
    then show ?thesis using leave Cons by (simp add: loop_head_def)
  next
    case False
    show ?thesis
    proof (cases "t = []")
      case True
      then show ?thesis using falsy Cons False by (simp add: loop_head_def)
    next
      case nonempty: False
      show ?thesis
      proof (cases "isDeepSeekWebMode c")
        case True
        then show ?thesis
          using claim [of t rest "(AwaitDelay, init_locals c t, [])"] Cons False nonempty
          by (simp add: loop_head_def susp_topic_def init_locals_def)
      next
        case notweb: False
        then show ?thesis
          using claim [of t rest "try_body c (s\<lparr>queue := rest, activeTasks := activeTasks s + 1\<rparr>) t"]
            Cons False nonempty
          by (simp add: loop_head_def Let_def)
      qed
    qed
  qed
qed

lemma inflight_list_update:
  "i < length ws \<Longrightarrow>
     sum_list (map wtopic (ws[i := w])) + wtopic (ws ! i) = sum_list (map wtopic ws) + wtopic w"
proof (induction ws arbitrary: i)
  case Nil
  then show ?case by simp
next
  case (Cons a ws)
  then show ?case by (cases i) (simp_all add: ac_simps)
qed


lemma inflight_update:
  "i < length (workers s) \<Longrightarrow> workers s' = (workers s)[i := w] \<Longrightarrow>
     inflight s' + wtopic (workers s ! i) = inflight s + wtopic w"
  by (simp add: inflight_def inflight_list_update)

lemma pipeline_step_topic:
  "pipeline_step c s p l r = Some x \<Longrightarrow> susp_topic x = ltopic l"
  by (auto simp: pipeline_step_def susp_topic_def link_stage_def ext_stage_def gen_stage_def
      try_body_def init_locals_def
      split: pc.splits response.splits payload.splits if_splits)

text \<open>Every transition is of one of six kinds.\<close>

lemma step_cases:
  assumes "step c e s = Some s'"
  obtains
    (cancel) "e = Cancel" "s' = handleStopGeneration s" "abort_topic s e = []"
  | (brand) r s0 where "e = MainResume r" "main s = MainBrand" "s' = prefetch_links c s0"
      "\<exists>b. s0 = s\<lparr>cachedBrandResearch := b\<rparr>" "abort_topic s e = []"
  | (links) r ls where "e = MainResume r" "main s = MainLinks"
      "s' = spawn c (s\<lparr>cachedInternalLinks := ls\<rparr>)" "abort_topic s e = []"
  | (stage) i r p l x where "e = Resume i r" "i < length (workers s)"
      "workers s ! i = Busy p l" "pipeline_step c s p l r = Some x"
      "s' = check_done (suspend i x s)" "abort_topic s e = []"
  | (reported) i r l a where "e = Resume i r" "i < length (workers s)"
      "workers s ! i = Busy AwaitGenerate l" "title a = ltopic l"
      "(\<exists>txt srcs. r = Resolved (PArticle txt srcs) \<and> a = completed_article l txt srcs) \<or>
       (\<exists>err. r = Rejected err \<and> err_name err \<noteq> ''AbortError'' \<and> a = failed_article l err)"
      "s' = check_done (loop_head c i (report i a s))" "abort_topic s e = []"
  | (abandoned) i r l err where "e = Resume i r" "i < length (workers s)"
      "workers s ! i = Busy AwaitGenerate l" "r = Rejected err" "err_name err = ''AbortError''"
      "abort_topic s e = [ltopic l]" "s' = check_done (exit_worker i (finally_block i s))"
proof (cases e)
  case Cancel
  then show ?thesis using assms cancel by (simp add: step_def abort_topic_def)
next
  case (MainResume r)
  have no: "abort_topic s e = []" using MainResume by (simp add: abort_topic_def)
  show ?thesis
  proof (cases "main s")
    case MainBrand
    then have "s' = prefetch_links c s \<or> (\<exists>b. s' = prefetch_links c (s\<lparr>cachedBrandResearch := Some b\<rparr>))"
      using assms MainResume
      by (auto simp: step_def main_resume_def split: response.splits payload.splits)
    then show ?thesis
    proof
      assume "s' = prefetch_links c s"
      moreover have "\<exists>b. s = s\<lparr>cachedBrandResearch := b\<rparr>"
        by (rule exI [of _ "cachedBrandResearch s"]) simp
      ultimately show ?thesis using brand MainResume MainBrand no by blast
    next
      assume "\<exists>b. s' = prefetch_links c (s\<lparr>cachedBrandResearch := Some b\<rparr>)"
      then show ?thesis using brand MainResume MainBrand no by blast
    qed
  next
    case MainLinks
    then have "s' = spawn c s \<or> (\<exists>ls. s' = spawn c (s\<lparr>cachedInternalLinks := ls\<rparr>))"
      using assms MainResume
      by (auto simp: step_def main_resume_def split: response.splits payload.splits)
    moreover have "s = s\<lparr>cachedInternalLinks := cachedInternalLinks s\<rparr>" by simp
    ultimately show ?thesis using links [of r] MainResume MainLinks no by metis
  next
    case MainWorkers
    then show ?thesis using assms MainResume by (simp add: step_def main_resume_def)
  next
    case MainDone
    then show ?thesis using assms MainResume by (simp add: step_def main_resume_def)
  qed
next
  case (Resume i r)
  from assms Resume have i: "i < length (workers s)"
    by (simp add: step_def split: if_splits)
  from assms Resume i obtain p l where w: "workers s ! i = Busy p l"
    and res: "map_option check_done (resume c i p l r s) = Some s'"
    by (auto simp: step_def split: worker.splits)
  show ?thesis
  proof (cases "p = AwaitGenerate")
    case False
    with res obtain x where "pipeline_step c s p l r = Some x" "s' = check_done (suspend i x s)"
      by (auto simp: resume_def)
    moreover have "abort_topic s e = []"
      using Resume w False by (simp add: abort_topic_def split: response.splits)
    ultimately show ?thesis using stage Resume i w by blast
  next
    case True
    with res obtain s1 where s1: "settle_generation c i l r s = Some s1" "s' = check_done s1"
      by (auto simp: resume_def)
    show ?thesis
    proof (cases r)
      case (Resolved pl)
      with s1 obtain body srcs where "pl = PArticle body srcs"
        "s1 = loop_head c i (report i (completed_article l body srcs) s)"
        by (auto simp: settle_generation_def split: if_splits payload.splits)
      then show ?thesis
        using reported [of i r l "completed_article l body srcs"] Resume i w True Resolved s1
        by (simp add: completed_article_def abort_topic_def)
    next
      case (Rejected err)
      show ?thesis
      proof (cases "err_name err = ''AbortError''")
        case abort: True
        with s1 Rejected have "s1 = exit_worker i (finally_block i s)"
          by (auto simp: settle_generation_def split: if_splits)
        moreover have "abort_topic s e = [ltopic l]"
          using Resume Rejected abort i w True by (simp add: abort_topic_def)
        ultimately show ?thesis using abandoned Resume i w True Rejected abort s1 by blast
      next
        case False
        with s1 Rejected have "s1 = loop_head c i (report i (failed_article l err) s)"
          by (auto simp: settle_generation_def split: if_splits)
        then show ?thesis
          using reported [of i r l "failed_article l err"] Resume i w True Rejected s1 False
          by (simp add: failed_article_def abort_topic_def)
      qed
    qed
  qed
qed

lemma exec_from_invariant:
  assumes "exec_from c es s = Some s'" and "Q s"
    and "\<And>e s s'. Q s \<Longrightarrow> step c e s = Some s' \<Longrightarrow> Q s'"
  shows "Q s'"
  using assms(1,2)
proof (induction es arbitrary: s)
  case Nil
  then show ?case by simp
next
  case (Cons e es)
  then show ?case using assms(3) by (auto split: option.splits)
qed

lemma exec_from_append:
  "exec_from c (es @ es') s =
     (case exec_from c es s of None \<Rightarrow> None | Some s' \<Rightarrow> exec_from c es' s')"
  by (induction es arbitrary: s) (auto split: option.splits)

text \<open>A run, the topics it drops and its respect of the signal, one event at a time.\<close>

lemma exec_snoc:
  "exec c k (es @ [e]) = (case exec c k es of None \<Rightarrow> None | Some s \<Rightarrow> step c e s)"
  by (simp add: exec_def exec_from_append split: option.splits)

lemma aborted_topics_from_append:
  "exec_from c es s = Some s' \<Longrightarrow>
     aborted_topics_from c (es @ es') s =
       aborted_topics_from c es s @ aborted_topics_from c es' s'"
  by (induction es arbitrary: s) (auto split: option.splits)

lemma aborted_topics_snoc:
  assumes "exec c k es = Some s"
  shows "aborted_topics c k (es @ [e]) = aborted_topics c k es @ abort_topic s e"
  using aborted_topics_from_append [of c es "handleGenerate c k" s "[e]"] assms
  by (simp add: exec_def aborted_topics_def split: option.splits)

lemma signal_respected_from_append:
  "exec_from c es s = Some s' \<Longrightarrow>
     signal_respected_from c (es @ es') s =
       (signal_respected_from c es s \<and> signal_respected_from c es' s')"
  by (induction es arbitrary: s) (auto split: option.splits)

lemma signal_respected_snoc:
  assumes "exec c k es = Some s"
  shows "signal_respected c k (es @ [e]) = (signal_respected c k es \<and> abort_respected s e)"
  using signal_respected_from_append [of c es "handleGenerate c k" s "[e]"] assms
  by (simp add: exec_def signal_respected_def split: option.splits)

lemma run_induct [consumes 1, case_names start step]:
  assumes "exec c k es = Some s"
    and "Q [] (handleGenerate c k)"
    and "\<And>es s e s'. exec c k es = Some s \<Longrightarrow> Q es s \<Longrightarrow> step c e s = Some s' \<Longrightarrow>
           Q (es @ [e]) s'"
  shows "Q es s"
  using assms(1)
proof (induction es arbitrary: s rule: rev_induct)
  case Nil
  then show ?case using assms(2) by (simp add: exec_def)
next
  case (snoc e es)
  from snoc.prems obtain s0 where s0: "exec c k es = Some s0" "step c e s0 = Some s"
    by (auto simp: exec_snoc split: option.splits)
  show ?case using assms(3) [OF s0(1) snoc.IH [OF s0(1)] s0(2)] .
qed

section \<open>The accounting invariant, segment by segment\<close>


lemma accounted_update:
  assumes "i < length (workers s)" "workers s' = (workers s)[i := w]"
    "generatedArticles s' = generatedArticles s @ as" "queue s' = queue s"
  shows "accounted s' + wtopic (workers s ! i) = accounted s + mset (map title as) + wtopic w"
proof -
  have "inflight s' + wtopic (workers s ! i) = inflight s + wtopic w"
    using assms(1,2) by (rule inflight_update)
  then show ?thesis
    using assms(3,4) by (simp add: accounted_def emitted_def ac_simps)
qed

lemma inv_acc_cong:
  assumes "queue s' = queue s" "aborted s' = aborted s"
    "generatedArticles s' = generatedArticles s" "completedCount s' = completedCount s"
    "workers s' = workers s"
  shows "inv_acc c d s' = inv_acc c d s"
  using assms by (simp add: inv_acc_def accounted_def emitted_def inflight_def)

lemma inv_acc_sub:
  assumes "inv_acc c d s"
  shows "accounted s \<subseteq># mset (topics_of c)"
proof -
  have "accounted s \<subseteq># accounted s + mset d" by simp
  also have "\<dots> \<subseteq># mset (topics_of c)" using assms by (simp add: inv_acc_def)
  finally show ?thesis .
qed

lemma valid_queue_nonempty:
  assumes "valid_config c" "accounted s \<subseteq># mset (topics_of c)" "t \<in> set (queue s)"
  shows "t \<noteq> []"
proof -
  have "mset (queue s) \<subseteq># accounted s" by (simp add: accounted_def)
  then have "mset (queue s) \<subseteq># mset (topics_of c)" using assms(2) by (rule subset_mset.order_trans)
  then have "set (queue s) \<subseteq> set (topics_of c)" using set_mset_mono by fastforce
  then show ?thesis using assms(1,3) by (auto simp: valid_config_def list_all_iff)
qed

lemma inv_acc_suspend:
  assumes "inv_acc c d s" "i < length (workers s)" "workers s ! i = Busy p l"
    "susp_topic x = ltopic l"
  shows "inv_acc c d (suspend i x s)"
proof -
  let ?s' = "suspend i x s"
  have "accounted ?s' + wtopic (workers s ! i) = accounted s + mset (map title ([]::GeneratedArticle list)) + wtopic (Busy (fst x) (fst (snd x)))"
    using assms(2) by (rule accounted_update) simp_all
  then have acc: "accounted ?s' = accounted s"
    using assms(3,4) by (simp add: susp_topic_def)
  have ex: "Exited \<in> set (workers ?s') \<Longrightarrow> Exited \<in> set (workers s)"
    using set_update_subset_insert [of "workers s" i "Busy (fst x) (fst (snd x))"] by auto
  show ?thesis
    using assms(1) acc ex unfolding inv_acc_def by simp
qed

lemma inv_acc_report:
  assumes "inv_acc c d s" "i < length (workers s)" "workers s ! i = Busy p l"
    "title a = ltopic l"
  shows "inv_acc c d (report i a s)"
proof -
  let ?s' = "report i a s"
  have "accounted ?s' + wtopic (workers s ! i) = accounted s + mset (map title [a]) + wtopic Idle"
    using assms(2) by (rule accounted_update) simp_all
  then have acc: "accounted ?s' = accounted s"
    using assms(3,4) by simp
  have ex: "Exited \<in> set (workers ?s') \<Longrightarrow> Exited \<in> set (workers s)"
    using set_update_subset_insert [of "workers s" i Idle] by auto
  show ?thesis
    using assms(1) acc ex unfolding inv_acc_def by auto
qed

lemma inv_acc_abandon:
  assumes "inv_acc c d s" "i < length (workers s)" "workers s ! i = Busy p l"
  shows "inv_acc c (d @ [ltopic l]) (exit_worker i (finally_block i s))"
proof -
  let ?s' = "exit_worker i (finally_block i s)"
  have "accounted ?s' + wtopic (workers s ! i) = accounted s + mset (map title ([]::GeneratedArticle list)) + wtopic Exited"
    using assms(2) by (rule accounted_update) simp_all
  then have "accounted ?s' + {#ltopic l#} = accounted s" using assms(3) by simp
  then have acc: "accounted ?s' + mset (d @ [ltopic l]) = accounted s + mset d"
    by (simp add: ac_simps)
  show ?thesis
    using assms(1) unfolding inv_acc_def acc by simp
qed

lemma inv_acc_loop_head:
  assumes "inv_acc c d s" "i < length (workers s)" "workers s ! i = Idle"
  shows "inv_acc c d (loop_head c i s)"
proof (cases rule: loop_head_cases [of s c i])
  case leave
  let ?s' = "exit_worker i s"
  have "accounted ?s' + wtopic (workers s ! i) = accounted s + mset (map title ([]::GeneratedArticle list)) + wtopic Exited"
    using assms(2) by (rule accounted_update) simp_all
  then have acc: "accounted ?s' = accounted s" using assms(3) by simp
  show ?thesis
    using assms(1) acc leave unfolding inv_acc_def by auto
next
  case (falsy rest)
  let ?s0 = "s\<lparr>queue := rest\<rparr>"
  let ?s' = "exit_worker i ?s0"
  have "accounted ?s' + wtopic (workers ?s0 ! i) = accounted ?s0 + mset (map title ([]::GeneratedArticle list)) + wtopic Exited"
    by (rule accounted_update) (use assms(2) in simp_all)
  then have "accounted ?s' = accounted ?s0" using assms(3) by simp
  also have "accounted ?s0 + {#[]#} = accounted s"
    using falsy(1) by (simp add: accounted_def emitted_def inflight_def)
  finally have acc: "accounted ?s' + {#[]#} = accounted s" .
  then have "accounted ?s' \<subseteq># accounted s" by (metis mset_subset_eq_add_left)
  then have "accounted ?s' + mset d \<subseteq># accounted s + mset d" by simp
  moreover have "accounted s + mset d \<subseteq># mset (topics_of c)"
    using assms(1) by (simp add: inv_acc_def)
  ultimately have sub: "accounted ?s' + mset d \<subseteq># mset (topics_of c)"
    by (rule subset_mset.order_trans)
  have notvalid: "\<not> valid_config c"
    using valid_queue_nonempty [of c s "[]"] inv_acc_sub [OF assms(1)] falsy(1) by auto
  show ?thesis
    using assms(1) sub falsy notvalid unfolding inv_acc_def by simp
next
  case (claim t rest x)
  let ?s0 = "s\<lparr>queue := rest, activeTasks := activeTasks s + 1\<rparr>"
  let ?s' = "suspend i x ?s0"
  have "accounted ?s' + wtopic (workers ?s0 ! i) = accounted ?s0 + mset (map title ([]::GeneratedArticle list)) + wtopic (Busy (fst x) (fst (snd x)))"
    by (rule accounted_update) (use assms(2) in simp_all)
  then have "accounted ?s' = accounted ?s0 + {#t#}"
    using assms(3) claim(5) by (simp add: susp_topic_def)
  also have "\<dots> = accounted s"
    using claim(1) by (simp add: accounted_def emitted_def inflight_def)
  finally have acc: "accounted ?s' = accounted s" .
  have ex: "Exited \<in> set (workers ?s') \<Longrightarrow> Exited \<in> set (workers s)"
    using set_update_subset_insert [of "workers s" i "Busy (fst x) (fst (snd x))"] by auto
  show ?thesis
    using assms(1) acc ex claim(1,3,4) unfolding inv_acc_def by auto
qed

text \<open>The counter, the topics in flight and the queue add up to the size of the batch.\<close>

lemma inv_acc_count:
  assumes "inv_acc c d s"
  shows "completedCount s + size (inflight s) + length (queue s) \<le> length (topics_of c)"
    and "valid_config c \<Longrightarrow>
           completedCount s + size (inflight s) + length (queue s) = length (topics_of c)"
proof -
  have sz: "size (accounted s + mset d) = completedCount s + size (inflight s) + length (queue s)"
    using assms by (auto simp: inv_acc_def accounted_def emitted_def)
  have "size (accounted s + mset d) \<le> size (mset (topics_of c))"
    using assms by (intro size_mset_mono) (simp add: inv_acc_def)
  then show "completedCount s + size (inflight s) + length (queue s) \<le> length (topics_of c)"
    using sz by simp
  assume "valid_config c"
  then have "accounted s + mset d = mset (topics_of c)" using assms by (simp add: inv_acc_def)
  then have "size (accounted s + mset d) = length (topics_of c)" by simp
  then show "completedCount s + size (inflight s) + length (queue s) = length (topics_of c)"
    using sz by simp
qed

lemma size_wtopic_le: "size (sum_list (map wtopic ws)) \<le> length ws"
proof (induction ws)
  case Nil
  then show ?case by simp
next
  case (Cons w ws)
  then show ?case by (cases w) simp_all
qed

lemma size_inflight_le: "size (inflight s) \<le> length (workers s)"
  by (simp add: inflight_def size_wtopic_le)

lemma size_wtopic_busy:
  "list_all (\<lambda>w. \<exists>p l. w = Busy p l) ws \<Longrightarrow> size (sum_list (map wtopic ws)) = length ws"
  by (induction ws) auto

section \<open>Spawning the pool, and the shape of reachable states\<close>


lemma loop_head_fields [simp]:
  "aborted (loop_head c i s) = aborted s"
  "ctrl_ref (loop_head c i s) = ctrl_ref s"
  "generatedArticles (loop_head c i s) = generatedArticles s"
  "completedCount (loop_head c i s) = completedCount s"
  "bulkProgress (loop_head c i s) = bulkProgress s"
  "error (loop_head c i s) = error s"
  "cachedBrandResearch (loop_head c i s) = cachedBrandResearch s"
  "cachedInternalLinks (loop_head c i s) = cachedInternalLinks s"
  "main (loop_head c i s) = main s"
  "length (workers (loop_head c i s)) = length (workers s)"
  by (cases rule: loop_head_cases [of s c i]; simp)+

lemma loop_head_worker:
  "\<exists>w. w \<noteq> Idle \<and> workers (loop_head c i s) = (workers s)[i := w]"
  by (cases rule: loop_head_cases [of s c i]) auto

lemma loop_head_queue:
  "\<exists>ts. queue s = ts @ queue (loop_head c i s)"
  by (cases rule: loop_head_cases [of s c i]) auto

lemma fold_loop_head:
  assumes "\<And>i s. Q s \<Longrightarrow> i < length (workers s) \<Longrightarrow> workers s ! i = Idle \<Longrightarrow> Q (loop_head c i s)"
  shows "Q s \<Longrightarrow> distinct js \<Longrightarrow> \<forall>j\<in>set js. j < length (workers s) \<and> workers s ! j = Idle \<Longrightarrow>
           Q (fold (loop_head c) js s)"
proof (induction js arbitrary: s)
  case Nil
  then show ?case by simp
next
  case (Cons j js)
  obtain w where w: "workers (loop_head c j s) = (workers s)[j := w]"
    using loop_head_worker by blast
  have "Q (loop_head c j s)" using Cons.prems assms by simp
  moreover have "distinct js" using Cons.prems by simp
  moreover have "\<forall>k\<in>set js. k < length (workers (loop_head c j s)) \<and> workers (loop_head c j s) ! k = Idle"
    using Cons.prems w by (auto simp: nth_list_update)
  ultimately show ?case using Cons.IH by simp
qed

lemma fold_loop_head_fields [simp]:
  "aborted (fold (loop_head c) js s) = aborted s"
  "ctrl_ref (fold (loop_head c) js s) = ctrl_ref s"
  "generatedArticles (fold (loop_head c) js s) = generatedArticles s"
  "completedCount (fold (loop_head c) js s) = completedCount s"
  "error (fold (loop_head c) js s) = error s"
  "cachedBrandResearch (fold (loop_head c) js s) = cachedBrandResearch s"
  "cachedInternalLinks (fold (loop_head c) js s) = cachedInternalLinks s"
  "main (fold (loop_head c) js s) = main s"
  "length (workers (fold (loop_head c) js s)) = length (workers s)"
  by (induction js arbitrary: s; simp)+

lemma fold_loop_head_workers:
  "k < length (workers s) \<Longrightarrow>
     (k \<in> set js \<longrightarrow> workers (fold (loop_head c) js s) ! k \<noteq> Idle) \<and>
     (k \<notin> set js \<longrightarrow> workers (fold (loop_head c) js s) ! k = workers s ! k)"
proof (induction js arbitrary: s)
  case Nil
  then show ?case by simp
next
  case (Cons j js)
  obtain w where w: "w \<noteq> Idle" "workers (loop_head c j s) = (workers s)[j := w]"
    using loop_head_worker by blast
  have k: "k < length (workers (loop_head c j s))" using Cons.prems by simp
  show ?case
    using Cons.IH [OF k] w Cons.prems by (cases "k = j") auto
qed

lemma spawn_fields [simp]:
  "aborted (spawn c s) = aborted s"
  "generatedArticles (spawn c s) = generatedArticles s"
  "completedCount (spawn c s) = completedCount s"
  "error (spawn c s) = error s"
  "cachedBrandResearch (spawn c s) = cachedBrandResearch s"
  "cachedInternalLinks (spawn c s) = cachedInternalLinks s"
  "length (workers (spawn c s)) = pool_size c"
  by (simp_all add: spawn_def)

lemma spawn_main: "main (spawn c s) = MainWorkers \<or> main (spawn c s) = MainDone"
  by (simp add: spawn_def check_done_def)

lemma spawn_no_idle: "Idle \<notin> set (workers (spawn c s))"
proof
  assume "Idle \<in> set (workers (spawn c s))"
  then obtain k where k: "k < pool_size c" "workers (spawn c s) ! k = Idle"
    by (metis in_set_conv_nth spawn_fields(7))
  let ?s0 = "s\<lparr>workers := replicate (pool_size c) Idle\<rparr>"
  have "k < length (workers ?s0)" using k by simp
  from fold_loop_head_workers [OF this, of "[0 ..< pool_size c]" c] k
  show False by (simp add: spawn_def)
qed

lemma spawn_invariant:
  assumes "Q (s\<lparr>workers := replicate (pool_size c) Idle\<rparr>)"
    and "\<And>i s. Q s \<Longrightarrow> i < length (workers s) \<Longrightarrow> workers s ! i = Idle \<Longrightarrow> Q (loop_head c i s)"
    and "\<And>s. Q s \<Longrightarrow> Q (check_done (s\<lparr>main := MainWorkers\<rparr>))"
  shows "Q (spawn c s)"
proof -
  let ?s0 = "s\<lparr>workers := replicate (pool_size c) Idle\<rparr>"
  have "Q (fold (loop_head c) [0 ..< pool_size c] ?s0)"
  proof (rule fold_loop_head)
    show "Q ?s0" by (rule assms(1))
    show "distinct [0 ..< pool_size c]" by simp
    show "\<forall>j\<in>set [0 ..< pool_size c]. j < length (workers ?s0) \<and> workers ?s0 ! j = Idle"
      by simp
  qed (rule assms(2))
  then show ?thesis unfolding spawn_def by (rule assms(3))
qed

lemma check_done_main:
  "main (check_done s) = MainDone \<longleftrightarrow>
     main s = MainDone \<or> (main s = MainWorkers \<and> list_all (\<lambda>w. w = Exited) (workers s))"
  "main s \<noteq> MainWorkers \<Longrightarrow> main (check_done s) = main s"
  "main s = MainWorkers \<Longrightarrow> main (check_done s) = MainWorkers \<or> main (check_done s) = MainDone"
  by (auto simp: check_done_def)

lemma check_done_ctrl: "ctrl_ref (check_done s) \<Longrightarrow> ctrl_ref s"
  by (simp add: check_done_def split: if_splits)

lemma inv_wf_check_done:
  assumes "topics_of c \<noteq> []" "main s = MainWorkers" "aborted s \<longrightarrow> \<not> ctrl_ref s"
    "length (workers s) = pool_size c" "Idle \<notin> set (workers s)" "error s = None"
  shows "inv_wf c (check_done s)"
proof -
  have "main (check_done s) = MainWorkers \<or> main (check_done s) = MainDone"
    using assms(2) by (rule check_done_main(3))
  then show ?thesis
  proof
    assume w: "main (check_done s) = MainWorkers"
    then have "\<not> list_all (\<lambda>w. w = Exited) (workers s)"
      using check_done_main(1) [of s] assms(2) by auto
    then show ?thesis
      using w assms check_done_ctrl [of s] unfolding inv_wf_def by auto
  next
    assume d: "main (check_done s) = MainDone"
    then have "list_all (\<lambda>w. w = Exited) (workers s)"
      using assms(2) by (simp add: check_done_main(1))
    then show ?thesis
      using d assms check_done_ctrl [of s] unfolding inv_wf_def by auto
  qed
qed

lemma inv_wf_spawn:
  assumes "topics_of c \<noteq> []" "aborted s \<longrightarrow> \<not> ctrl_ref s" "error s = None"
  shows "inv_wf c (spawn c s)"
proof -
  let ?s1 = "(fold (loop_head c) [0 ..< pool_size c]
           (s\<lparr>workers := replicate (pool_size c) Idle\<rparr>)) \<lparr>main := MainWorkers\<rparr>"
  have "Idle \<notin> set (workers (check_done ?s1))"
    using spawn_no_idle [of c s] by (simp add: spawn_def)
  then have "inv_wf c (check_done ?s1)"
    using assms by (intro inv_wf_check_done) simp_all
  then show ?thesis by (simp add: spawn_def)
qed

lemma prefetch_links_cases:
  obtains (scan) k where "has_website c" "autoOptimize c" "prescan_call c = Some k"
      "prefetch_links c s = s\<lparr>main := MainLinks, calls := calls s @ [k]\<rparr>"
  | (skip) "\<not> (has_website c \<and> autoOptimize c \<and> prescan_call c \<noteq> None)"
      "prefetch_links c s = spawn c s"
proof (cases "has_website c \<and> autoOptimize c")
  case True
  then show ?thesis
    using scan skip by (cases "prescan_call c") (auto simp: prefetch_links_def)
next
  case False
  then show ?thesis using skip by (auto simp: prefetch_links_def)
qed

lemma inv_wf_prefetch_links:
  assumes "topics_of c \<noteq> []" "aborted s \<longrightarrow> \<not> ctrl_ref s" "error s = None"
    "workers s = []" "queue s = topics_of c" "generatedArticles s = []" "completedCount s = 0"
  shows "inv_wf c (prefetch_links c s)"
proof (cases rule: prefetch_links_cases [of c s])
  case (scan k)
  then show ?thesis using assms by (simp add: inv_wf_def)
next
  case skip
  then show ?thesis using assms inv_wf_spawn by simp
qed

lemma inv_wf_handleGenerate:
  assumes "topics_of c \<noteq> []"
  shows "inv_wf c (handleGenerate c k)"
proof -
  let ?s0 = "fresh\<lparr> bulkProgress := \<lparr>completed = 0, total = length (topics_of c)\<rparr>,
                  queue := topics_of c \<rparr>"
  have "inv_wf c (prefetch_links c ?s0)"
    using assms by (intro inv_wf_prefetch_links) (simp_all add: fresh_def)
  moreover have "inv_wf c (?s0\<lparr>main := MainBrand, calls := calls ?s0 @ [AnalyzeBrandWebsite (the_website c)]\<rparr>)"
    using assms by (simp add: inv_wf_def fresh_def)
  ultimately show ?thesis
    using assms by (simp add: handleGenerate_def prefetch_brand_def)
qed

lemma busy_main:
  assumes "inv_wf c s" "i < length (workers s)" "workers s ! i = Busy p l"
  shows "main s = MainWorkers"
proof (cases "main s")
  case MainDone
  then have "list_all (\<lambda>w. w = Exited) (workers s)" using assms(1) by (simp add: inv_wf_def)
  then show ?thesis using assms(2,3) by (auto simp: list_all_length)
qed (use assms in \<open>auto simp: inv_wf_def\<close>)

lemma inv_wf_worker_step:
  assumes "inv_wf c s" "i < length (workers s)" "workers s ! i = Busy p l"
    "workers s1 = (workers s)[i := w]" "w \<noteq> Idle" "main s1 = main s" "aborted s1 = aborted s"
    "ctrl_ref s1 = ctrl_ref s" "error s1 = error s"
  shows "inv_wf c (check_done s1)"
proof -
  have m: "main s1 = MainWorkers" using busy_main [OF assms(1-3)] assms(6) by simp
  have "Idle \<notin> set (workers s1)"
    using assms(1,4,5) set_update_subset_insert [of "workers s" i w] by (auto simp: inv_wf_def)
  then show ?thesis
    using assms m by (intro inv_wf_check_done) (auto simp: inv_wf_def)
qed

lemma inv_wf_step:
  assumes "inv_wf c s" "step c e s = Some s'"
  shows "inv_wf c s'"
proof -
  have base: "topics_of c \<noteq> []" "aborted s \<longrightarrow> \<not> ctrl_ref s" "error s = None"
    using assms(1) by (simp_all add: inv_wf_def)
  have pre: "main s = MainBrand \<or> main s = MainLinks \<Longrightarrow>
      workers s = [] \<and> queue s = topics_of c \<and> generatedArticles s = [] \<and> completedCount s = 0"
    using assms(1) by (simp add: inv_wf_def)
  from assms(2) show ?thesis
  proof (cases rule: step_cases)
    case cancel
    then show ?thesis using assms(1) by (auto simp: inv_wf_def handleStopGeneration_def)
  next
    case (brand r s0)
    then obtain b where s0: "s0 = s\<lparr>cachedBrandResearch := b\<rparr>" by blast
    have "inv_wf c (prefetch_links c s0)"
      by (rule inv_wf_prefetch_links) (use base pre brand(2) s0 in simp_all)
    then show ?thesis using brand by simp
  next
    case (links r ls)
    have "inv_wf c (spawn c (s\<lparr>cachedInternalLinks := ls\<rparr>))"
      by (rule inv_wf_spawn) (use base in simp_all)
    then show ?thesis using links by simp
  next
    case (stage i r p l x)
    have "inv_wf c (check_done (suspend i x s))"
      by (rule inv_wf_worker_step [OF assms(1) stage(2,3), where w = "Busy (fst x) (fst (snd x))"])
        auto
    then show ?thesis using stage by simp
  next
    case (reported i r l a)
    obtain w where w: "w \<noteq> Idle"
        "workers (loop_head c i (report i a s)) = (workers (report i a s))[i := w]"
      using loop_head_worker by blast
    then have "workers (loop_head c i (report i a s)) = (workers s)[i := w]" by simp
    then have "inv_wf c (check_done (loop_head c i (report i a s)))"
      by (rule inv_wf_worker_step [OF assms(1) reported(2,3)]) (use w(1) in simp_all)
    then show ?thesis using reported by simp
  next
    case (abandoned i r l err)
    have "inv_wf c (check_done (exit_worker i (finally_block i s)))"
      by (rule inv_wf_worker_step [OF assms(1) abandoned(2,3), where w = Exited]) auto
    then show ?thesis using abandoned by simp
  qed
qed

section \<open>The invariants hold in every reachable state\<close>


lemma inflight_replicate_idle: "sum_list (replicate n ({#} :: string multiset)) = {#}"
  by (induction n) simp_all

lemma inv_acc_check_done: "inv_acc c d (check_done s) = inv_acc c d s"
  by (rule inv_acc_cong) simp_all

lemma inv_acc_stop: "inv_acc c d s \<Longrightarrow> inv_acc c d (handleStopGeneration s)"
  by (cases "ctrl_ref s")
     (auto simp: inv_acc_def accounted_def emitted_def inflight_def handleStopGeneration_def)

lemma inv_acc_spawn:
  assumes "inv_acc c d s" "workers s = []"
  shows "inv_acc c d (spawn c s)"
proof (rule spawn_invariant)
  show "inv_acc c d (s\<lparr>workers := replicate (pool_size c) Idle\<rparr>)"
    using assms
    by (simp add: inv_acc_def accounted_def emitted_def inflight_def inflight_replicate_idle)
next
  fix i s
  assume "inv_acc c d s" "i < length (workers s)" "workers s ! i = Idle"
  then show "inv_acc c d (loop_head c i s)" by (rule inv_acc_loop_head)
next
  fix s
  assume "inv_acc c d s"
  moreover have "inv_acc c d (s\<lparr>main := MainWorkers\<rparr>) = inv_acc c d s"
    by (rule inv_acc_cong) simp_all
  ultimately show "inv_acc c d (check_done (s\<lparr>main := MainWorkers\<rparr>))"
    by (simp add: inv_acc_check_done)
qed

lemma inv_acc_prefetch_links:
  assumes "inv_acc c d s" "workers s = []"
  shows "inv_acc c d (prefetch_links c s)"
proof (cases rule: prefetch_links_cases [of c s])
  case (scan k)
  have "inv_acc c d (s\<lparr>main := MainLinks, calls := calls s @ [k]\<rparr>) = inv_acc c d s"
    by (rule inv_acc_cong) simp_all
  then show ?thesis using scan assms by simp
next
  case skip
  then show ?thesis using assms inv_acc_spawn by simp
qed

lemma inv_acc_handleGenerate:
  assumes "topics_of c \<noteq> []"
  shows "inv_acc c [] (handleGenerate c k)"
proof -
  let ?s0 = "fresh\<lparr> bulkProgress := \<lparr>completed = 0, total = length (topics_of c)\<rparr>,
                  queue := topics_of c \<rparr>"
  have s0: "inv_acc c [] ?s0"
    by (simp add: inv_acc_def accounted_def emitted_def inflight_def fresh_def)
  have "inv_acc c [] (prefetch_links c ?s0)"
    using s0 by (rule inv_acc_prefetch_links) (simp add: fresh_def)
  moreover have "inv_acc c [] (?s0\<lparr>main := MainBrand, calls := calls ?s0 @ [AnalyzeBrandWebsite (the_website c)]\<rparr>)
      = inv_acc c [] ?s0"
    by (rule inv_acc_cong) simp_all
  ultimately show ?thesis
    using assms s0 by (simp add: handleGenerate_def prefetch_brand_def)
qed

lemma inv_acc_step:
  assumes "inv_acc c d s" "inv_wf c s" "step c e s = Some s'"
  shows "inv_acc c (d @ abort_topic s e) s'"
proof -
  have pre: "main s = MainBrand \<or> main s = MainLinks \<Longrightarrow> workers s = []"
    using assms(2) by (simp add: inv_wf_def)
  from assms(3) show ?thesis
  proof (cases rule: step_cases)
    case cancel
    then show ?thesis using assms(1) inv_acc_stop by simp
  next
    case (brand r s0)
    then obtain b where s0: "s0 = s\<lparr>cachedBrandResearch := b\<rparr>" by blast
    have "inv_acc c d s0 = inv_acc c d s" unfolding s0 by (rule inv_acc_cong) simp_all
    then have "inv_acc c d (prefetch_links c s0)"
      using assms(1) pre brand(2) s0 by (intro inv_acc_prefetch_links) simp_all
    then show ?thesis using brand by simp
  next
    case (links r ls)
    have "inv_acc c d (s\<lparr>cachedInternalLinks := ls\<rparr>) = inv_acc c d s"
      by (rule inv_acc_cong) simp_all
    then have "inv_acc c d (spawn c (s\<lparr>cachedInternalLinks := ls\<rparr>))"
      using assms(1) pre links(2) by (intro inv_acc_spawn) simp_all
    then show ?thesis using links by simp
  next
    case (stage i r p l x)
    have "inv_acc c d (suspend i x s)"
      using assms(1) stage(2,3) pipeline_step_topic [OF stage(4)] by (rule inv_acc_suspend)
    then show ?thesis using stage by (simp add: inv_acc_check_done)
  next
    case (reported i r l a)
    have "inv_acc c d (report i a s)"
      using assms(1) reported(2,3,4) by (rule inv_acc_report)
    then have "inv_acc c d (loop_head c i (report i a s))"
      by (rule inv_acc_loop_head) (use reported(2) in simp_all)
    then show ?thesis using reported by (simp add: inv_acc_check_done)
  next
    case (abandoned i r l err)
    have "inv_acc c (d @ [ltopic l]) (exit_worker i (finally_block i s))"
      using assms(1) abandoned(2,3) by (rule inv_acc_abandon)
    then show ?thesis using abandoned by (simp add: inv_acc_check_done)
  qed
qed

lemma reachable_inv:
  assumes "topics_of c \<noteq> []" "exec c k es = Some s"
  shows "inv_wf c s \<and> inv_acc c (aborted_topics c k es) s"
  using assms(2)
proof (induction rule: run_induct)
  case start
  then show ?case
    using assms(1) inv_wf_handleGenerate inv_acc_handleGenerate
    by (simp add: aborted_topics_def)
next
  case (step es s e s')
  then have "inv_wf c s'" "inv_acc c (aborted_topics c k es @ abort_topic s e) s'"
    using inv_wf_step [of c s e s'] inv_acc_step [of c "aborted_topics c k es" s e s']
    by blast+
  then show ?case using step(1) by (simp add: aborted_topics_snoc)
qed

text \<open>Cancellation is final, and a run that respects the signal drops no topic before it.\<close>

lemma loop_head_aborted_eq: "aborted (loop_head c i s) = aborted s"
  by (cases rule: loop_head_cases [of s c i]) simp_all

lemma spawn_aborted_eq: "aborted (spawn c s) = aborted s"
  by (rule spawn_invariant [where Q = "\<lambda>s'. aborted s' = aborted s"])
     (simp_all add: loop_head_aborted_eq)

lemma prefetch_links_aborted_eq: "aborted (prefetch_links c s) = aborted s"
  by (cases rule: prefetch_links_cases [of c s]) (simp_all add: spawn_aborted_eq)

lemma step_keeps_aborted:
  assumes "step c e s = Some s'" "aborted s"
  shows "aborted s'"
  using assms(1)
proof (cases rule: step_cases)
  case cancel
  then show ?thesis using assms(2) by (simp add: handleStopGeneration_def)
next
  case (brand r s0)
  then show ?thesis using assms(2) by (auto simp: prefetch_links_aborted_eq)
next
  case (links r ls)
  then show ?thesis using assms(2) by (simp add: spawn_aborted_eq)
next
  case (stage i r p l x)
  then show ?thesis using assms(2) by simp
next
  case (reported i r l a)
  then show ?thesis using assms(2) by (simp add: loop_head_aborted_eq)
next
  case (abandoned i r l err)
  then show ?thesis using assms(2) by simp
qed

lemma respected_run_drops_nothing:
  assumes "exec c k es = Some s"
  shows "signal_respected c k es \<Longrightarrow> \<not> aborted s \<Longrightarrow> aborted_topics c k es = []"
  using assms
proof (induction rule: run_induct)
  case start
  then show ?case by (simp add: aborted_topics_def)
next
  case (step es s e s')
  from step.prems(2) step.hyps(2) have na: "\<not> aborted s" using step_keeps_aborted by blast
  from step.prems(1) step.hyps(1)
  have r: "signal_respected c k es" "abort_respected s e"
    by (simp_all add: signal_respected_snoc)
  have "aborted_topics c k es = []" using step.IH r(1) na by simp
  moreover have "abort_topic s e = []" using r(2) na by (simp add: abort_respected_def)
  ultimately show ?case using step.hyps(1) by (simp add: aborted_topics_snoc)
qed

section \<open>Every settled call brings the run closer to its end\<close>

lemma rank_list_update:
  "i < length ws \<Longrightarrow>
     sum_list (map worker_rank (ws[i := w])) + worker_rank (ws ! i) =
     sum_list (map worker_rank ws) + worker_rank w"
proof (induction ws arbitrary: i)
  case Nil
  then show ?case by simp
next
  case (Cons a ws)
  then show ?case by (cases i) (simp_all add: ac_simps)
qed

lemma work_update:
  assumes "i < length (workers s)" "workers s' = (workers s)[i := w]" "queue s' = queue s"
  shows "work s' + worker_rank (workers s ! i) = work s + worker_rank w"
  using assms rank_list_update [of i "workers s" w] by (simp add: work_def)

lemma work_cong: "workers s' = workers s \<Longrightarrow> queue s' = queue s \<Longrightarrow> work s' = work s"
  by (simp add: work_def)

lemma stage_rank:
  assumes "pipeline_step c s p l r = Some x"
  shows "pc_rank (fst x) < pc_rank p"
  using assms
  by (auto simp: pipeline_step_def link_stage_def ext_stage_def gen_stage_def try_body_def
      split: pc.splits response.splits payload.splits if_splits)

lemma try_body_rank: "pc_rank (fst (try_body c s t)) \<le> 6"
  by (simp add: try_body_def gen_stage_def)

lemma work_loop_head:
  assumes "i < length (workers s)" "workers s ! i = Idle"
  shows "work (loop_head c i s) \<le> work s"
proof (cases rule: loop_head_cases [of s c i])
  case leave
  have "work (exit_worker i s) + worker_rank (workers s ! i) = work s + worker_rank Exited"
    using assms(1) by (rule work_update) simp_all
  then show ?thesis using leave assms(2) by simp
next
  case (falsy rest)
  let ?s0 = "s\<lparr>queue := rest\<rparr>"
  have "work (exit_worker i ?s0) + worker_rank (workers ?s0 ! i) = work ?s0 + worker_rank Exited"
    by (rule work_update) (use assms(1) in simp_all)
  moreover have "work ?s0 \<le> work s" using falsy(1) by (simp add: work_def)
  ultimately show ?thesis using falsy assms(2) by simp
next
  case (claim t rest x)
  let ?s0 = "s\<lparr>queue := rest, activeTasks := activeTasks s + 1\<rparr>"
  have "work (suspend i x ?s0) + worker_rank (workers ?s0 ! i) =
      work ?s0 + worker_rank (Busy (fst x) (fst (snd x)))"
    by (rule work_update) (use assms(1) in simp_all)
  moreover have "work ?s0 + 7 = work s" using claim(1) by (simp add: work_def)
  moreover have "pc_rank (fst x) \<le> 6" using claim(6) try_body_rank [of c ?s0 t] by auto
  ultimately show ?thesis using claim(4) assms(2) by simp
qed

lemma work_spawn:
  assumes "workers s = []"
  shows "work (spawn c s) \<le> work s"
proof (rule spawn_invariant [where Q = "\<lambda>x. work x \<le> work s"])
  have "sum_list (replicate n (0::nat)) = 0" for n by (induction n) simp_all
  then show "work (s\<lparr>workers := replicate (pool_size c) Idle\<rparr>) \<le> work s"
    using assms by (simp add: work_def)
next
  fix i x
  assume "work x \<le> work s" "i < length (workers x)" "workers x ! i = Idle"
  then show "work (loop_head c i x) \<le> work s"
    using work_loop_head [of i x c] by simp
next
  fix x
  assume "work x \<le> work s"
  moreover have "work (check_done (x\<lparr>main := MainWorkers\<rparr>)) = work x"
    by (rule work_cong) simp_all
  ultimately show "work (check_done (x\<lparr>main := MainWorkers\<rparr>)) \<le> work s" by simp
qed

lemma spawn_main_rank: "main_rank (main (spawn c s)) = 0"
  using spawn_main [of c s] by auto

lemma remaining_spawn:
  assumes "workers s = []"
  shows "remaining (spawn c s) \<le> work s"
  using work_spawn [OF assms, of c] by (simp add: remaining_def spawn_main_rank)

lemma remaining_prefetch_links:
  assumes "workers s = []"
  shows "remaining (prefetch_links c s) \<le> 1 + work s"
proof (cases rule: prefetch_links_cases [of c s])
  case (scan k)
  then show ?thesis by (simp add: remaining_def work_def)
next
  case skip
  then show ?thesis using remaining_spawn [OF assms, of c] by simp
qed

lemma check_done_rank:
  assumes "main s = MainWorkers"
  shows "remaining (check_done s) = work s"
proof -
  have "main_rank (main (check_done s)) = 0"
    using check_done_main(3) [OF assms] by auto
  moreover have "work (check_done s) = work s" by (rule work_cong) simp_all
  ultimately show ?thesis by (simp add: remaining_def)
qed

lemma remaining_step:
  assumes "inv_wf c s" "step c e s = Some s'"
  shows "(e = Cancel \<longrightarrow> remaining s' = remaining s) \<and>
         (e \<noteq> Cancel \<longrightarrow> remaining s' < remaining s)"
proof -
  have pre: "main s = MainBrand \<or> main s = MainLinks \<Longrightarrow> workers s = []"
    using assms(1) by (simp add: inv_wf_def)
  from assms(2) show ?thesis
  proof (cases rule: step_cases)
    case cancel
    then show ?thesis by (simp add: remaining_def work_def)
  next
    case (brand r s0)
    then obtain b where s0: "s0 = s\<lparr>cachedBrandResearch := b\<rparr>" by blast
    then have "workers s0 = []" "work s0 = work s"
      using pre brand(2) by (simp_all add: work_def)
    then have "remaining (prefetch_links c s0) \<le> 1 + work s"
      using remaining_prefetch_links [of s0 c] by simp
    then show ?thesis using brand by (simp add: remaining_def)
  next
    case (links r ls)
    let ?s0 = "s\<lparr>cachedInternalLinks := ls\<rparr>"
    have "workers ?s0 = []" "work ?s0 = work s"
      using pre links(2) by (simp_all add: work_def)
    then have "remaining (spawn c ?s0) \<le> work s"
      using remaining_spawn [of ?s0 c] by simp
    then show ?thesis using links by (simp add: remaining_def)
  next
    case (stage i r p l x)
    have m: "main s = MainWorkers" using busy_main [OF assms(1) stage(2,3)] .
    have "work (suspend i x s) + worker_rank (workers s ! i) =
        work s + worker_rank (Busy (fst x) (fst (snd x)))"
      using stage(2) by (rule work_update) simp_all
    then have "work (suspend i x s) < work s"
      using stage(3) stage_rank [OF stage(4)] by simp
    moreover have "remaining (check_done (suspend i x s)) = work (suspend i x s)"
      by (rule check_done_rank) (use m in simp)
    ultimately show ?thesis using stage m by (simp add: remaining_def)
  next
    case (reported i r l a)
    have m: "main s = MainWorkers" using busy_main [OF assms(1) reported(2,3)] .
    let ?s1 = "report i a s"
    have "work ?s1 + worker_rank (workers s ! i) = work s + worker_rank Idle"
      using reported(2) by (rule work_update) simp_all
    then have "work ?s1 < work s" using reported(3) by simp
    moreover have "work (loop_head c i ?s1) \<le> work ?s1"
      by (rule work_loop_head) (use reported(2) in simp_all)
    moreover have "remaining (check_done (loop_head c i ?s1)) = work (loop_head c i ?s1)"
      by (rule check_done_rank) (use m in simp)
    ultimately show ?thesis using reported m by (simp add: remaining_def)
  next
    case (abandoned i r l err)
    have m: "main s = MainWorkers" using busy_main [OF assms(1) abandoned(2,3)] .
    let ?s1 = "exit_worker i (finally_block i s)"
    have "work ?s1 + worker_rank (workers s ! i) = work s + worker_rank Exited"
      using abandoned(2) by (rule work_update) simp_all
    then have "work ?s1 < work s" using abandoned(3) by simp
    moreover have "remaining (check_done ?s1) = work ?s1"
      by (rule check_done_rank) (use m in simp)
    ultimately show ?thesis using abandoned m by (simp add: remaining_def)
  qed
qed

lemma remaining_exec_from:
  assumes "inv_wf c s" "exec_from c es s = Some s'"
  shows "settlements es + remaining s' \<le> remaining s"
  using assms
proof (induction es arbitrary: s)
  case Nil
  then show ?case by (simp add: settlements_def)
next
  case (Cons e es)
  then obtain s1 where s1: "step c e s = Some s1" "exec_from c es s1 = Some s'"
    by (auto split: option.splits)
  have "inv_wf c s1" using Cons.prems(1) s1(1) by (rule inv_wf_step)
  then have "settlements es + remaining s' \<le> remaining s1" using s1(2) by (rule Cons.IH)
  moreover have "(e = Cancel \<longrightarrow> remaining s1 = remaining s) \<and>
         (e \<noteq> Cancel \<longrightarrow> remaining s1 < remaining s)"
    using Cons.prems(1) s1(1) by (rule remaining_step)
  ultimately show ?case by (cases "e = Cancel") (simp_all add: settlements_def)
qed

lemma remaining_handleGenerate:
  assumes "topics_of c \<noteq> []"
  shows "remaining (handleGenerate c k) \<le> 2 + 7 * length (topics_of c)"
proof -
  let ?s0 = "fresh\<lparr> bulkProgress := \<lparr>completed = 0, total = length (topics_of c)\<rparr>,
                  queue := topics_of c \<rparr>"
  have w: "work ?s0 = 7 * length (topics_of c)" by (simp add: work_def fresh_def)
  have "remaining (prefetch_links c ?s0) \<le> 1 + work ?s0"
    by (rule remaining_prefetch_links) (simp add: fresh_def)
  then show ?thesis
    using assms w
    by (simp add: handleGenerate_def prefetch_brand_def remaining_def work_def fresh_def)
qed

lemma settlements_bound:
  assumes "topics_of c \<noteq> []" "exec c k es = Some s"
  shows "settlements es \<le> 2 + 7 * length (topics_of c)"
proof -
  have "exec_from c es (handleGenerate c k) = Some s" using assms(2) by (simp add: exec_def)
  then have "settlements es + remaining s \<le> remaining (handleGenerate c k)"
    using inv_wf_handleGenerate [OF assms(1)] remaining_exec_from by blast
  then show ?thesis using remaining_handleGenerate [OF assms(1), of k] by simp
qed

text \<open>While the run is not finished some call is pending, and the run takes its result.\<close>

lemma pending_call:
  assumes "inv_wf c s" "main s \<noteq> MainDone"
  shows "\<exists>e. e \<noteq> Cancel \<and> step c e s \<noteq> None"
proof (cases "main s")
  case MainBrand
  then have "step c (MainResume (Rejected err)) s \<noteq> None" for err
    by (simp add: step_def main_resume_def)
  then show ?thesis by blast
next
  case MainLinks
  then have "step c (MainResume (Rejected err)) s \<noteq> None" for err
    by (simp add: step_def main_resume_def)
  then show ?thesis by blast
next
  case MainWorkers
  then have "\<not> list_all (\<lambda>w. w = Exited) (workers s)" "Idle \<notin> set (workers s)"
    using assms(1) by (simp_all add: inv_wf_def)
  then obtain w0 where w0: "w0 \<in> set (workers s)" "w0 \<noteq> Exited" "w0 \<noteq> Idle"
    by (auto simp: list_all_iff)
  from w0(1) obtain i where i: "i < length (workers s)" and wi: "workers s ! i = w0"
    by (auto simp: in_set_conv_nth)
  obtain p l where "w0 = Busy p l" using w0(2,3) by (cases w0) auto
  then have w: "workers s ! i = Busy p l" using wi by simp
  let ?err = "\<lparr>err_name = ''Error'', err_message = []\<rparr>"
  show ?thesis
  proof (cases "p = AwaitDelay")
    case True
    then have "step c (Resume i (Resolved PTimer)) s \<noteq> None"
      using i w by (simp add: step_def resume_def pipeline_step_def)
    then show ?thesis by blast
  next
    case False
    have "resume c i p l (Rejected ?err) s \<noteq> None"
    proof (cases "p = AwaitGenerate")
      case True
      then show ?thesis
        by (simp add: resume_def settle_generation_def)
    next
      case notgen: False
      have "pipeline_step c s p l (Rejected ?err) \<noteq> None"
        using False notgen by (cases p) (simp_all add: pipeline_step_def)
      then show ?thesis using notgen by (simp add: resume_def)
    qed
    then have "step c (Resume i (Rejected ?err)) s \<noteq> None"
      using i w by (simp add: step_def)
    then show ?thesis by blast
  qed
next
  case MainDone
  then show ?thesis using assms(2) by simp
qed

section \<open>The number of entries and the pool (claims C1, C2, C6)\<close>

lemmas model_defs =
  exec_def handleGenerate_def topics_of_def fresh_def prefetch_brand_def prefetch_links_def
  prescan_call_def seed_topic_def the_website_def
  spawn_def pool_size_def CONCURRENCY_LIMIT_def isDeepSeekWebMode_def has_website_def
  loop_head_def suspend_def try_body_def link_stage_def ext_stage_def gen_stage_def
  usesDeepSeekKeywords_def init_locals_def check_done_def step_def resume_def
  pipeline_step_def settle_generation_def report_def
  finally_block_def exit_worker_def finish_def handleStopGeneration_def main_resume_def
  default_links_def generateWithFallback_def singleConfig_def completed_article_def
  failed_article_def upt_rec

lemmas trace_defs =
  aborted_topics_def signal_respected_def abort_respected_def abort_topic_def

lemma inflight_exited:
  assumes "list_all (\<lambda>w. w = Exited) (workers s)"
  shows "inflight s = {#}"
proof -
  have "list_all (\<lambda>w. w = Exited) ws \<Longrightarrow> sum_list (map wtopic ws) = {#}" for ws
    by (induction ws) auto
  then show ?thesis using assms by (simp add: inflight_def)
qed

lemma pool_size_pos: "topics_of c \<noteq> [] \<Longrightarrow> 0 < pool_size c"
  by (simp add: pool_size_def CONCURRENCY_LIMIT_def)

lemma pool_size_le: "pool_size c \<le> length (topics_of c)"
  by (simp add: pool_size_def)

lemma finished_facts:
  assumes "inv_wf c s" "run_finished s"
  shows "inflight s = {#}" "Exited \<in> set (workers s)"
proof -
  have all: "list_all (\<lambda>w. w = Exited) (workers s)" and len: "length (workers s) = pool_size c"
    and ne: "topics_of c \<noteq> []"
    using assms by (simp_all add: inv_wf_def run_finished_def)
  show "inflight s = {#}" using all by (rule inflight_exited)
  have "workers s \<noteq> []" using len pool_size_pos [OF ne] by auto
  then obtain w ws where "workers s = w # ws" by (cases "workers s") auto
  then show "Exited \<in> set (workers s)" using all by simp
qed

lemma workers_le_topics:
  assumes "inv_wf c s"
  shows "length (workers s) \<le> length (topics_of c)"
proof (cases "main s = MainBrand \<or> main s = MainLinks")
  case True
  then show ?thesis using assms by (simp add: inv_wf_def)
next
  case False
  then have "main s = MainWorkers \<or> main s = MainDone" by (cases "main s") auto
  then show ?thesis using assms pool_size_le [of c] by (simp add: inv_wf_def)
qed

lemma all_busy:
  assumes "Idle \<notin> set ws" "Exited \<notin> set ws"
  shows "list_all (\<lambda>w. \<exists>p l. w = Busy p l) ws"
  using assms
proof (induction ws)
  case Nil
  then show ?case by simp
next
  case (Cons w ws)
  then show ?case by (cases w) auto
qed

lemma demo_valid: "valid_config demo_config"
  by (simp add: valid_config_def demo_config_def topics_of_def)

lemma seven_valid: "valid_config seven_config"
  by (simp add: valid_config_def seven_config_def demo_config_def topics_of_def)

lemma serial_valid: "valid_config serial_config"
  by (simp add: valid_config_def serial_config_def seven_config_def demo_config_def topics_of_def)

lemma demo_run:
  "\<exists>s. exec demo_config False
       [Resume 0 (Resolved (PArticle ''A article'' [])), Resume 1 (Rejected boom)] = Some s \<and>
       run_finished s \<and> \<not> aborted s"
  by (simp add: demo_config_def boom_def run_finished_def model_defs)

lemma demo_run_respected:
  "signal_respected demo_config False
     [Resume 0 (Resolved (PArticle ''A article'' [])), Resume 1 (Rejected boom)]"
  by (simp add: demo_config_def boom_def trace_defs model_defs)

lemma cancelled_demo_run:
  "\<exists>s. exec demo_config False
       [Cancel, Resume 0 (Rejected abort_error),
        Resume 1 (Resolved (PArticle ''B article'' []))] = Some s \<and>
       run_finished s \<and> queue s = []"
  by (simp add: demo_config_def abort_error_def run_finished_def model_defs)

lemma cancelled_demo_run_dropped:
  "aborted_topics demo_config False
     [Cancel, Resume 0 (Rejected abort_error),
      Resume 1 (Resolved (PArticle ''B article'' []))] = [''A'']"
  by (simp add: demo_config_def abort_error_def trace_defs model_defs)

text \<open>
  Claim C1, as amended. For every valid batch of \<open>N\<close> topics: a run cannot go on for
  ever, it finishes after at most \<open>2 + 7 N\<close> settled calls, and while it is not finished
  some call is pending whose result the run takes. In every state the counter of the
  \<^verbatim>\<open>finally\<close> block is the number of entries plus the number of topics whose generation
  call ended with AbortError. When the run has finished, the entries, the topics dropped
  on an AbortError and the topics left in the queue are exactly the \<open>N\<close> topics: the run
  has emitted \<open>N\<close> entries less one for each topic the cancellation left unclaimed and
  one for each aborted generation call. If no generation call has ended with AbortError
  before a cancellation (the providers raise it only under the aborted signal), a run
  that was never cancelled has emitted exactly \<open>N\<close> entries.
\<close>

theorem batch_result_count:
  assumes "valid_config c" "exec c k es = Some s"
  shows "settlements es \<le> 2 + 7 * length (topics_of c) \<and>
         (\<not> run_finished s \<longrightarrow> (\<exists>e. e \<noteq> Cancel \<and> step c e s \<noteq> None)) \<and>
         length (generatedArticles s) + length (aborted_topics c k es) = completedCount s \<and>
         (run_finished s \<longrightarrow>
            length (generatedArticles s) + length (aborted_topics c k es) + length (queue s)
              = length (topics_of c) \<and>
            (signal_respected c k es \<and> \<not> aborted s \<longrightarrow>
               length (generatedArticles s) = length (topics_of c)))"
proof -
  have ne: "topics_of c \<noteq> []" using assms(1) by (simp add: valid_config_def)
  have wf: "inv_wf c s" and acc: "inv_acc c (aborted_topics c k es) s"
    using reachable_inv [OF ne assms(2)] by simp_all
  have bound: "settlements es \<le> 2 + 7 * length (topics_of c)"
    using ne assms(2) by (rule settlements_bound)
  have live: "\<exists>e. e \<noteq> Cancel \<and> step c e s \<noteq> None" if "\<not> run_finished s"
    using wf that by (intro pending_call) (simp_all add: run_finished_def)
  have cc: "length (generatedArticles s) + length (aborted_topics c k es) = completedCount s"
    using acc by (simp add: inv_acc_def)
  have counts: "length (generatedArticles s) + length (aborted_topics c k es) + length (queue s)
              = length (topics_of c) \<and>
            (signal_respected c k es \<and> \<not> aborted s \<longrightarrow>
               length (generatedArticles s) = length (topics_of c))"
    if finished: "run_finished s"
  proof -
    have fin: "inflight s = {#}" "Exited \<in> set (workers s)"
      using finished_facts [OF wf finished] by simp_all
    have total: "length (generatedArticles s) + length (aborted_topics c k es) + length (queue s)
              = length (topics_of c)"
      using inv_acc_count(2) [OF acc assms(1)] fin(1) cc by simp
    have "length (generatedArticles s) = length (topics_of c)"
      if h: "signal_respected c k es \<and> \<not> aborted s"
    proof -
      have d: "aborted_topics c k es = []"
        using respected_run_drops_nothing [OF assms(2)] h by simp
      then have "queue s = []" using acc assms(1) h fin(2) by (simp add: inv_acc_def)
      then show ?thesis using total d by simp
    qed
    then show ?thesis using total by simp
  qed
  show ?thesis using bound live cc counts by blast
qed

text \<open>
  A witness for C1: two topics, the first generated and the second failing, give two
  entries; and when the run is cancelled and the first generation call aborted, the
  article of the second, which arrives all the same, is the only entry.
\<close>

theorem batch_result_count_witness:
  "map_option entry_count
     (exec demo_config False
        [Resume 0 (Resolved (PArticle ''A article'' [])), Resume 1 (Rejected boom)]) = Some 2 \<and>
   map_option entry_count
     (exec demo_config False
        [Cancel, Resume 0 (Rejected abort_error),
         Resume 1 (Resolved (PArticle ''B article'' []))]) = Some 1"
proof -
  obtain s where s: "exec demo_config False
       [Resume 0 (Resolved (PArticle ''A article'' [])), Resume 1 (Rejected boom)] = Some s"
    "run_finished s" "\<not> aborted s"
    using demo_run by blast
  have "length (generatedArticles s) = length (topics_of demo_config)"
    using batch_result_count [OF demo_valid s(1)] s(2,3) demo_run_respected by blast
  then have one: "map_option entry_count
     (exec demo_config False
        [Resume 0 (Resolved (PArticle ''A article'' [])), Resume 1 (Rejected boom)]) = Some 2"
    using s(1) by (simp add: entry_count_def demo_config_def topics_of_def)
  obtain s' where s': "exec demo_config False
       [Cancel, Resume 0 (Rejected abort_error),
        Resume 1 (Resolved (PArticle ''B article'' []))] = Some s'"
    "run_finished s'" "queue s' = []"
    using cancelled_demo_run by blast
  have "length (generatedArticles s') + length [''A''] + length (queue s')
          = length (topics_of demo_config)"
    using batch_result_count [OF demo_valid s'(1)] s'(2)
    unfolding cancelled_demo_run_dropped by blast
  then have "map_option entry_count
     (exec demo_config False
        [Cancel, Resume 0 (Rejected abort_error),
         Resume 1 (Resolved (PArticle ''B article'' []))]) = Some 1"
    using s'(1,3) by (simp add: entry_count_def demo_config_def topics_of_def)
  then show ?thesis using one by simp
qed

text \<open>
  Counterexample to claim C1 as stated (a run cancelled mid-run emits fewer than \<open>N\<close>
  entries): one topic in the DeepSeek web mode. The run is cancelled during the artificial
  delay before the pipeline; the worker does not read the abort flag after the delay and
  calls the provider, which fails for a missing API key with a plain \<^verbatim>\<open>Error\<close>; the
  worker reports a failed entry. The cancelled run has emitted \<open>1 = N\<close> entry.
\<close>

theorem cancelled_run_full_count_counterexample:
  "map_option entry_count
     (exec (demo_config\<lparr>queueTopics := Some [''A''], provider := AI_DEEPSEEK, realTimeData := True\<rparr>)
        False [Cancel, Resume 0 (Resolved PTimer), Resume 0 (Rejected missing_key)]) = Some 1 \<and>
   map_option aborted
     (exec (demo_config\<lparr>queueTopics := Some [''A''], provider := AI_DEEPSEEK, realTimeData := True\<rparr>)
        False [Cancel, Resume 0 (Resolved PTimer), Resume 0 (Rejected missing_key)]) = Some True \<and>
   map_option run_finished
     (exec (demo_config\<lparr>queueTopics := Some [''A''], provider := AI_DEEPSEEK, realTimeData := True\<rparr>)
        False [Cancel, Resume 0 (Resolved PTimer), Resume 0 (Rejected missing_key)]) = Some True \<and>
   \<not> (1::nat) < length [''A'']"
  by (simp add: demo_config_def missing_key_def run_finished_def entry_count_def model_defs)

text \<open>
  Claim C2, as amended. The pop is part of one synchronous segment, so every topic is in
  exactly one place: in every reachable state the reported titles, the topics held by
  suspended workers, the queued topics and the topics dropped because their generation
  call ended with AbortError form a sub-multiset of the input topics, and for a valid
  batch they are the input topics. So no topic is claimed by two workers or reported
  twice, a claimed topic has at most one entry, and the pool is never larger than the
  topic list. When a valid run has finished, every topic has exactly one entry, except
  those left in the queue and those dropped on an AbortError; if no generation call has
  ended with AbortError before a cancellation, a run that was never cancelled has
  reported exactly the input topics. The entries are really produced: the run takes the
  result of some pending call for as long as it is not finished, and it finishes within
  \<open>2 + 7 N\<close> settled calls.
\<close>

theorem no_topic_claimed_twice:
  assumes "topics_of c \<noteq> []" "exec c k es = Some s"
  shows "emitted s + inflight s + mset (queue s) + mset (aborted_topics c k es)
           \<subseteq># mset (topics_of c) \<and>
         length (workers s) \<le> length (topics_of c) \<and>
         (valid_config c \<longrightarrow>
            emitted s + inflight s + mset (queue s) + mset (aborted_topics c k es)
              = mset (topics_of c)) \<and>
         (valid_config c \<and> run_finished s \<longrightarrow>
            emitted s + mset (queue s) + mset (aborted_topics c k es) = mset (topics_of c)) \<and>
         (valid_config c \<and> run_finished s \<and> signal_respected c k es \<and> \<not> aborted s \<longrightarrow>
            emitted s = mset (topics_of c)) \<and>
         settlements es \<le> 2 + 7 * length (topics_of c) \<and>
         (\<not> run_finished s \<longrightarrow> (\<exists>e. e \<noteq> Cancel \<and> step c e s \<noteq> None))"
proof -
  have wf: "inv_wf c s" and acc: "inv_acc c (aborted_topics c k es) s"
    using reachable_inv [OF assms] by simp_all
  have sub: "emitted s + inflight s + mset (queue s) + mset (aborted_topics c k es)
           \<subseteq># mset (topics_of c)"
    using acc by (simp add: inv_acc_def accounted_def)
  have len: "length (workers s) \<le> length (topics_of c)"
    using wf by (rule workers_le_topics)
  have eq: "emitted s + inflight s + mset (queue s) + mset (aborted_topics c k es)
              = mset (topics_of c)"
    if "valid_config c"
    using acc that by (simp add: inv_acc_def accounted_def)
  have fin: "emitted s + mset (queue s) + mset (aborted_topics c k es) = mset (topics_of c)"
    if "valid_config c \<and> run_finished s"
  proof -
    have "inflight s = {#}" using finished_facts(1) [OF wf] that by simp
    then show ?thesis using eq that by simp
  qed
  have all: "emitted s = mset (topics_of c)"
    if h: "valid_config c \<and> run_finished s \<and> signal_respected c k es \<and> \<not> aborted s"
  proof -
    have d: "aborted_topics c k es = []"
      using respected_run_drops_nothing [OF assms(2)] h by simp
    have "Exited \<in> set (workers s)" using finished_facts(2) [OF wf] h by simp
    then have "queue s = []" using acc h d by (simp add: inv_acc_def)
    then show ?thesis using fin h d by simp
  qed
  have bound: "settlements es \<le> 2 + 7 * length (topics_of c)"
    using assms by (rule settlements_bound)
  have live: "\<exists>e. e \<noteq> Cancel \<and> step c e s \<noteq> None" if "\<not> run_finished s"
    using wf that by (intro pending_call) (simp_all add: run_finished_def)
  show ?thesis using sub len eq fin all bound live by blast
qed

text \<open>
  A witness for C2: the finished run over \<open>A\<close> and \<open>B\<close> has reported \<open>A\<close> and \<open>B\<close>; when
  it is cancelled and the generation call for \<open>A\<close> aborted, it has reported \<open>B\<close> alone.
\<close>

theorem no_topic_claimed_twice_witness:
  "map_option emitted
     (exec demo_config False
        [Resume 0 (Resolved (PArticle ''A article'' [])), Resume 1 (Rejected boom)])
     = Some {#''A'', ''B''#} \<and>
   map_option emitted
     (exec demo_config False
        [Cancel, Resume 0 (Rejected abort_error),
         Resume 1 (Resolved (PArticle ''B article'' []))])
     = Some {#''B''#}"
proof -
  have ne: "topics_of demo_config \<noteq> []" by (simp add: demo_config_def topics_of_def)
  obtain s where s: "exec demo_config False
       [Resume 0 (Resolved (PArticle ''A article'' [])), Resume 1 (Rejected boom)] = Some s"
    "run_finished s" "\<not> aborted s"
    using demo_run by blast
  have "emitted s = mset (topics_of demo_config)"
    using no_topic_claimed_twice [OF ne s(1)] demo_valid s(2,3) demo_run_respected by blast
  then have one: "map_option emitted
     (exec demo_config False
        [Resume 0 (Resolved (PArticle ''A article'' [])), Resume 1 (Rejected boom)])
     = Some {#''A'', ''B''#}"
    using s(1) by (simp add: demo_config_def topics_of_def)
  obtain s' where s': "exec demo_config False
       [Cancel, Resume 0 (Rejected abort_error),
        Resume 1 (Resolved (PArticle ''B article'' []))] = Some s'"
    "run_finished s'" "queue s' = []"
    using cancelled_demo_run by blast
  have "emitted s' + mset (queue s') + mset [''A''] = mset (topics_of demo_config)"
    using no_topic_claimed_twice [OF ne s'(1)] demo_valid s'(2)
    unfolding cancelled_demo_run_dropped by blast
  then have "emitted s' + {#''A''#} = {#''B''#} + {#''A''#}"
    using s'(3) by (simp add: demo_config_def topics_of_def)
  then have "emitted s' = {#''B''#}" by (simp only: add_right_cancel)
  then show ?thesis using one s'(1) by simp
qed

text \<open>
  Counterexample to claim C2 as stated (exactly one entry per claimed topic): a batch of
  one topic is cancelled while its generation call is in flight, and the call rejects
  with AbortError. The topic was claimed (the generation call was made for it), the run
  has finished, and there is no entry for it.
\<close>

theorem claimed_topic_without_entry_counterexample:
  "map_option (\<lambda>s. map call_topic (calls s))
     (exec single_config False [Cancel, Resume 0 (Rejected abort_error)]) = Some [Some ''A''] \<and>
   map_option run_finished
     (exec single_config False [Cancel, Resume 0 (Rejected abort_error)]) = Some True \<and>
   map_option entry_count
     (exec single_config False [Cancel, Resume 0 (Rejected abort_error)]) = Some 0 \<and>
   (0::nat) \<noteq> 1"
  by (simp add: single_config_def demo_config_def abort_error_def run_finished_def
      entry_count_def model_defs)

text \<open>
  Claim C6. The limit is a function of the provider and the two research flags only: it
  is 1 exactly for DeepSeek with deep research or real-time data and 5 otherwise. Once
  the workers are spawned the pool has \<open>min N limit\<close> workers, in every later state, and
  never more than \<open>min N limit\<close> topics are in flight. The pool is used in full: in a
  valid batch that is not cancelled (and where no generation call has ended with
  AbortError), as long as a topic is queued every worker of the pool holds a topic, so
  exactly \<open>min N limit\<close> topics are in flight.
\<close>

theorem concurrency_policy:
  assumes "topics_of c \<noteq> []" "exec c k es = Some s" "main s = MainWorkers \<or> main s = MainDone"
  shows "(CONCURRENCY_LIMIT c = 1 \<longleftrightarrow>
            provider c = AI_DEEPSEEK \<and> (deepResearch c \<or> realTimeData c)) \<and>
         (CONCURRENCY_LIMIT c \<noteq> 1 \<longrightarrow> CONCURRENCY_LIMIT c = 5) \<and>
         length (workers s) = min (length (topics_of c)) (CONCURRENCY_LIMIT c) \<and>
         size (inflight s) \<le> min (length (topics_of c)) (CONCURRENCY_LIMIT c) \<and>
         (valid_config c \<and> signal_respected c k es \<and> \<not> aborted s \<and> queue s \<noteq> [] \<longrightarrow>
            size (inflight s) = min (length (topics_of c)) (CONCURRENCY_LIMIT c))"
proof -
  have wf: "inv_wf c s" and acc: "inv_acc c (aborted_topics c k es) s"
    using reachable_inv [OF assms(1,2)] by simp_all
  have len: "length (workers s) = pool_size c" using wf assms(3) by (simp add: inv_wf_def)
  have le: "size (inflight s) \<le> pool_size c" using size_inflight_le [of s] len by simp
  have full: "size (inflight s) = pool_size c"
    if h: "valid_config c \<and> signal_respected c k es \<and> \<not> aborted s \<and> queue s \<noteq> []"
  proof -
    have d: "aborted_topics c k es = []"
      using respected_run_drops_nothing [OF assms(2)] h by simp
    have "Exited \<notin> set (workers s)" using acc h d by (auto simp: inv_acc_def)
    moreover have "Idle \<notin> set (workers s)" using wf by (simp add: inv_wf_def)
    ultimately have "list_all (\<lambda>w. \<exists>p l. w = Busy p l) (workers s)" by (intro all_busy)
    then show ?thesis using len by (simp add: inflight_def size_wtopic_busy)
  qed
  show ?thesis
    using len le full
    by (simp add: pool_size_def CONCURRENCY_LIMIT_def isDeepSeekWebMode_def)
qed

text \<open>
  A witness for C6: of seven topics, five are in flight at once on Gemini (five active
  tasks) and two wait in the queue; in the serial mode of DeepSeek with web research, one is in flight.
\<close>

theorem concurrency_policy_witness:
  "map_option (\<lambda>s. size (inflight s)) (exec seven_config False []) = Some 5 \<and>
   map_option queue (exec seven_config False []) = Some [''T6'', ''T7''] \<and>
   map_option activeTasks (exec seven_config False []) = Some 5 \<and>
   map_option (\<lambda>s. size (inflight s)) (exec serial_config False []) = Some 1 \<and>
   CONCURRENCY_LIMIT seven_config = 5 \<and> CONCURRENCY_LIMIT serial_config = 1"
proof -
  have lim: "CONCURRENCY_LIMIT seven_config = 5" "CONCURRENCY_LIMIT serial_config = 1"
    by (simp_all add: serial_config_def seven_config_def demo_config_def CONCURRENCY_LIMIT_def
        isDeepSeekWebMode_def)
  have n: "length (topics_of seven_config) = 7" "length (topics_of serial_config) = 7"
    by (simp_all add: serial_config_def seven_config_def demo_config_def topics_of_def)
  obtain s where s: "exec seven_config False [] = Some s" "main s = MainWorkers"
    "\<not> aborted s" "queue s = [''T6'', ''T7'']" "activeTasks s = 5"
    by (simp add: seven_config_def demo_config_def model_defs)
  have r: "signal_respected seven_config False []" by (simp add: signal_respected_def)
  have ne: "topics_of seven_config \<noteq> []" using n(1) by auto
  have "size (inflight s) = min (length (topics_of seven_config)) (CONCURRENCY_LIMIT seven_config)"
    using concurrency_policy [OF ne s(1)] s(2,3,4) seven_valid r by simp
  then have five: "map_option (\<lambda>s. size (inflight s)) (exec seven_config False []) = Some 5"
    using s(1) lim(1) n(1) by simp
  obtain s' where s': "exec serial_config False [] = Some s'" "main s' = MainWorkers"
    "\<not> aborted s'" "queue s' \<noteq> []"
    by (simp add: serial_config_def seven_config_def demo_config_def model_defs)
  have r': "signal_respected serial_config False []" by (simp add: signal_respected_def)
  have ne': "topics_of serial_config \<noteq> []" using n(2) by auto
  have "size (inflight s')
          = min (length (topics_of serial_config)) (CONCURRENCY_LIMIT serial_config)"
    using concurrency_policy [OF ne' s'(1)] s'(2,3,4) serial_valid r' by simp
  then have "map_option (\<lambda>s. size (inflight s)) (exec serial_config False []) = Some 1"
    using s'(1) lim(2) n(2) by simp
  then show ?thesis using five s(1,4,5) lim by simp
qed

section \<open>Errors and aborted calls (claims C4, C10, C3)\<close>

subsection \<open>What a settled generation call does\<close>

lemma step_abort:
  assumes "i < length (workers s)" "workers s ! i = Busy AwaitGenerate l"
    "err_name err = ''AbortError''" "aborted s"
  shows "step c (Resume i (Rejected err)) s = Some (check_done (exit_worker i (finally_block i s)))"
  using assms by (simp add: step_def resume_def settle_generation_def)

lemma step_failed:
  assumes "i < length (workers s)" "workers s ! i = Busy AwaitGenerate l"
    "err_name err \<noteq> ''AbortError''"
  shows "step c (Resume i (Rejected err)) s =
           Some (check_done (loop_head c i (report i (failed_article l err) s)))"
  using assms by (simp add: step_def resume_def settle_generation_def)

lemma step_stage:
  assumes "i < length (workers s)" "workers s ! i = Busy p l" "p \<noteq> AwaitGenerate"
    "pipeline_step c s p l r = Some x"
  shows "step c (Resume i r) s = Some (check_done (suspend i x s))"
  using assms by (simp add: step_def resume_def)

lemma check_done_no_ctrl:
  "\<not> ctrl_ref s \<Longrightarrow> bulkProgress (check_done s) = bulkProgress s"
  "\<not> ctrl_ref s \<Longrightarrow> activeTasks (check_done s) = activeTasks s"
  by (simp_all add: check_done_def finish_def)

lemma stage_error_caught:
  assumes "p \<noteq> AwaitDelay" "p \<noteq> AwaitGenerate"
  shows "pipeline_step c s p l (Rejected err) \<noteq> None"
  using assms by (cases p) (simp_all add: pipeline_step_def)

subsection \<open>A batch without topics\<close>

lemma empty_run:
  assumes "topics_of c = []" "exec c k es = Some s"
  shows "error s = Some ''No topics provided for bulk generation'' \<and> generatedArticles s = [] \<and>
         calls s = [] \<and> workers s = [] \<and> main s = MainDone \<and> \<not> ctrl_ref s \<and>
         cachedInternalLinks s = []"
proof -
  let ?Q = "\<lambda>s. error s = Some ''No topics provided for bulk generation'' \<and>
     generatedArticles s = [] \<and> calls s = [] \<and> workers s = [] \<and> main s = MainDone \<and> \<not> ctrl_ref s \<and>
     cachedInternalLinks s = []"
  have "exec_from c es (handleGenerate c k) = Some s" using assms(2) by (simp add: exec_def)
  moreover have "?Q (handleGenerate c k)"
    using assms(1) by (simp add: handleGenerate_def fresh_def)
  moreover have "?Q s2" if "?Q s1" "step c e s1 = Some s2" for e s1 s2
    using that(2)
  proof (cases rule: step_cases)
    case cancel
    then show ?thesis using that(1) by (simp add: handleStopGeneration_def)
  qed (use that(1) in simp_all)
  ultimately show ?thesis by (rule exec_from_invariant)
qed

subsection \<open>Exited workers, and what later transitions can change\<close>

lemma exited_stays:
  assumes "inv_wf c s" "i < length (workers s)" "workers s ! i = Exited" "step c e s = Some s'"
  shows "i < length (workers s') \<and> workers s' ! i = Exited"
proof -
  have pre: "main s = MainBrand \<or> main s = MainLinks \<Longrightarrow> workers s = []"
    using assms(1) by (simp add: inv_wf_def)
  from assms(4) show ?thesis
  proof (cases rule: step_cases)
    case cancel
    then show ?thesis using assms(2,3) by simp
  next
    case (brand r s0)
    then show ?thesis using pre assms(2) by simp
  next
    case (links r ls)
    then show ?thesis using pre assms(2) by simp
  next
    case (stage j r p l x)
    then have "j \<noteq> i" using assms(3) by auto
    then show ?thesis using stage assms(2,3) by simp
  next
    case (reported j r l a)
    then have ne: "j \<noteq> i" using assms(3) by auto
    obtain w where "workers (loop_head c j (report j a s)) = (workers (report j a s))[j := w]"
      using loop_head_worker by blast
    then show ?thesis using reported ne assms(2,3) by simp
  next
    case (abandoned j r l err)
    then have "j \<noteq> i" using assms(3) by auto
    then show ?thesis using abandoned assms(2,3) by simp
  qed
qed

lemma exited_forever:
  assumes "inv_wf c s" "i < length (workers s)" "workers s ! i = Exited"
    "exec_from c es s = Some s'"
  shows "workers s' ! i = Exited"
proof -
  let ?Q = "\<lambda>x. inv_wf c x \<and> i < length (workers x) \<and> workers x ! i = Exited"
  have "?Q s'"
    using assms(4)
  proof (rule exec_from_invariant)
    show "?Q s" using assms(1-3) by simp
  next
    fix e x x'
    assume "?Q x" "step c e x = Some x'"
    then show "?Q x'" using exited_stays inv_wf_step by blast
  qed
  then show ?thesis by simp
qed

lemma accounted_loop_head:
  assumes "i < length (workers s)" "workers s ! i = Idle"
  shows "accounted (loop_head c i s) \<subseteq># accounted s"
proof (cases rule: loop_head_cases [of s c i])
  case leave
  have "accounted (exit_worker i s) + wtopic (workers s ! i) =
      accounted s + mset (map title ([]::GeneratedArticle list)) + wtopic Exited"
    using assms(1) by (rule accounted_update) simp_all
  then show ?thesis using leave assms(2) by simp
next
  case (falsy rest)
  let ?s0 = "s\<lparr>queue := rest\<rparr>"
  have "accounted (exit_worker i ?s0) + wtopic (workers ?s0 ! i) =
      accounted ?s0 + mset (map title ([]::GeneratedArticle list)) + wtopic Exited"
    by (rule accounted_update) (use assms(1) in simp_all)
  then have "accounted (exit_worker i ?s0) = accounted ?s0" using assms(2) by simp
  moreover have "accounted ?s0 \<subseteq># accounted s"
    using falsy(1) by (simp add: accounted_def emitted_def inflight_def)
  ultimately show ?thesis using falsy by simp
next
  case (claim t rest x)
  let ?s0 = "s\<lparr>queue := rest, activeTasks := activeTasks s + 1\<rparr>"
  have "accounted (suspend i x ?s0) + wtopic (workers ?s0 ! i) =
      accounted ?s0 + mset (map title ([]::GeneratedArticle list)) +
      wtopic (Busy (fst x) (fst (snd x)))"
    by (rule accounted_update) (use assms(1) in simp_all)
  then have "accounted (suspend i x ?s0) = accounted ?s0 + {#t#}"
    using assms(2) claim(5) by (simp add: susp_topic_def)
  also have "\<dots> = accounted s"
    using claim(1) by (simp add: accounted_def emitted_def inflight_def)
  finally show ?thesis using claim by simp
qed

lemma accounted_spawn:
  assumes "workers s = []"
  shows "accounted (spawn c s) \<subseteq># accounted s"
proof (rule spawn_invariant [where Q = "\<lambda>x. accounted x \<subseteq># accounted s"])
  show "accounted (s\<lparr>workers := replicate (pool_size c) Idle\<rparr>) \<subseteq># accounted s"
    using assms by (simp add: accounted_def emitted_def inflight_def inflight_replicate_idle)
next
  fix i x
  assume "accounted x \<subseteq># accounted s" "i < length (workers x)" "workers x ! i = Idle"
  then show "accounted (loop_head c i x) \<subseteq># accounted s"
    using accounted_loop_head [of i x c] by (meson subset_mset.order_trans)
next
  fix x
  assume "accounted x \<subseteq># accounted s"
  then show "accounted (check_done (x\<lparr>main := MainWorkers\<rparr>)) \<subseteq># accounted s"
    by (simp add: accounted_def emitted_def inflight_def)
qed

lemma accounted_prefetch_links:
  assumes "workers s = []"
  shows "accounted (prefetch_links c s) \<subseteq># accounted s"
proof (cases rule: prefetch_links_cases [of c s])
  case (scan k)
  then show ?thesis by (simp add: accounted_def emitted_def inflight_def)
next
  case skip
  then show ?thesis using accounted_spawn [OF assms] by simp
qed

lemma accounted_check_done [simp]: "accounted (check_done s) = accounted s"
  by (simp add: accounted_def emitted_def inflight_def)

lemma accounted_abandon:
  assumes "i < length (workers s)" "workers s ! i = Busy p l"
  shows "accounted (exit_worker i (finally_block i s)) + {#ltopic l#} = accounted s"
proof -
  have "accounted (exit_worker i (finally_block i s)) + wtopic (workers s ! i) =
      accounted s + mset (map title ([]::GeneratedArticle list)) + wtopic Exited"
    using assms(1) by (rule accounted_update) simp_all
  then show ?thesis using assms(2) by simp
qed

lemma accounted_step:
  assumes "inv_wf c s" "step c e s = Some s'"
  shows "accounted s' \<subseteq># accounted s"
proof -
  have pre: "main s = MainBrand \<or> main s = MainLinks \<Longrightarrow> workers s = []"
    using assms(1) by (simp add: inv_wf_def)
  from assms(2) show ?thesis
  proof (cases rule: step_cases)
    case cancel
    then show ?thesis by (simp add: accounted_def emitted_def inflight_def)
  next
    case (brand r s0)
    then obtain b where s0: "s0 = s\<lparr>cachedBrandResearch := b\<rparr>" by blast
    then have "workers s0 = []" "accounted s0 = accounted s"
      using pre brand(2) by (simp_all add: accounted_def emitted_def inflight_def)
    then show ?thesis using accounted_prefetch_links [of s0 c] brand(3) by simp
  next
    case (links r ls)
    let ?s0 = "s\<lparr>cachedInternalLinks := ls\<rparr>"
    have "workers ?s0 = []" "accounted ?s0 = accounted s"
      using pre links(2) by (simp_all add: accounted_def emitted_def inflight_def)
    then show ?thesis using accounted_spawn [of ?s0 c] links(3) by simp
  next
    case (stage i r p l x)
    have "accounted (suspend i x s) + wtopic (workers s ! i) =
      accounted s + mset (map title ([]::GeneratedArticle list)) +
      wtopic (Busy (fst x) (fst (snd x)))"
      using stage(2) by (rule accounted_update) simp_all
    then have "accounted (suspend i x s) = accounted s"
      using stage(3) pipeline_step_topic [OF stage(4)] by (simp add: susp_topic_def)
    then show ?thesis using stage by simp
  next
    case (reported i r l a)
    have "accounted (report i a s) + wtopic (workers s ! i) =
      accounted s + mset (map title [a]) + wtopic Idle"
      using reported(2) by (rule accounted_update) simp_all
    then have "accounted (report i a s) = accounted s" using reported(3,4) by simp
    moreover have "accounted (loop_head c i (report i a s)) \<subseteq># accounted (report i a s)"
      by (rule accounted_loop_head) (use reported(2) in simp_all)
    ultimately show ?thesis using reported by simp
  next
    case (abandoned i r l err)
    have "accounted (exit_worker i (finally_block i s)) + {#ltopic l#} = accounted s"
      using abandoned(2,3) by (rule accounted_abandon)
    then have "accounted (exit_worker i (finally_block i s)) \<subseteq># accounted s"
      by (metis mset_subset_eq_add_left)
    then show ?thesis using abandoned by simp
  qed
qed

lemma accounted_exec_from:
  assumes "inv_wf c s" "exec_from c es s = Some s'"
  shows "accounted s' \<subseteq># accounted s"
proof -
  let ?Q = "\<lambda>x. inv_wf c x \<and> accounted x \<subseteq># accounted s"
  have "?Q s'"
    using assms(2)
  proof (rule exec_from_invariant)
    show "?Q s" using assms(1) by simp
  next
    fix e x x'
    assume "?Q x" "step c e x = Some x'"
    then show "?Q x'"
      using accounted_step [of c x e x'] inv_wf_step [of c x e x']
      by (meson subset_mset.order_trans)
  qed
  then show ?thesis by simp
qed

text \<open>The counter of the \<^verbatim>\<open>finally\<close> block never falls behind the entries.\<close>

lemma gap_step:
  assumes "step c e s = Some s'"
  shows "completedCount s + length (generatedArticles s') \<le>
           completedCount s' + length (generatedArticles s)"
  using assms
proof (cases rule: step_cases)
  case (brand r s0)
  then show ?thesis
    by (cases rule: prefetch_links_cases [of c s0]) auto
qed auto

lemma gap_exec_from:
  assumes "exec_from c es s = Some s'"
  shows "completedCount s + length (generatedArticles s') \<le>
           completedCount s' + length (generatedArticles s)"
proof -
  let ?Q = "\<lambda>x. completedCount s + length (generatedArticles x) \<le>
           completedCount x + length (generatedArticles s)"
  show ?thesis
    using assms
  proof (rule exec_from_invariant [where Q = ?Q])
    show "?Q s" by simp
  next
    fix e x x'
    assume "?Q x" "step c e x = Some x'"
    then show "?Q x'" using gap_step [of c e x x'] by linarith
  qed
qed

lemma busy_topics_nonempty:
  assumes "exec c k es = Some s" "i < length (workers s)"
  shows "topics_of c \<noteq> []"
  using empty_run [OF _ assms(1)] assms(2) by auto

text \<open>
  Claim C4. In a cancelled run, when the generation call a worker awaits rejects with
  AbortError, the transition appends no entry and the worker has exited; in every later
  state the worker is still exited, and the entries together with this topic still fit
  into the input topics: the occurrence of the topic that the worker had claimed is never
  reported, as failed or otherwise.
\<close>

theorem abort_is_not_a_failure:
  assumes "exec c k es = Some s" "i < length (workers s)"
    "workers s ! i = Busy AwaitGenerate l" "err_name err = ''AbortError''" "aborted s"
  shows "\<exists>s'. step c (Resume i (Rejected err)) s = Some s' \<and>
           generatedArticles s' = generatedArticles s \<and> workers s' ! i = Exited \<and>
           (\<forall>es' s''. exec_from c es' s' = Some s'' \<longrightarrow>
              workers s'' ! i = Exited \<and> emitted s'' + {#ltopic l#} \<subseteq># mset (topics_of c))"
proof -
  let ?s' = "check_done (exit_worker i (finally_block i s))"
  have ne: "topics_of c \<noteq> []" using busy_topics_nonempty [OF assms(1,2)] .
  have wf: "inv_wf c s" and acc: "inv_acc c (aborted_topics c k es) s"
    using reachable_inv [OF ne assms(1)] by simp_all
  have st: "step c (Resume i (Rejected err)) s = Some ?s'"
    using assms(2-5) by (rule step_abort)
  have wf': "inv_wf c ?s'" using wf st by (rule inv_wf_step)
  have ex: "i < length (workers ?s')" "workers ?s' ! i = Exited" using assms(2) by simp_all
  have lost: "accounted ?s' + {#ltopic l#} = accounted s"
    using accounted_abandon [OF assms(2,3)] by simp
  have later: "workers s'' ! i = Exited \<and> emitted s'' + {#ltopic l#} \<subseteq># mset (topics_of c)"
    if run: "exec_from c es' ?s' = Some s''" for es' s''
  proof -
    have "accounted s'' \<subseteq># accounted ?s'" using wf' run by (rule accounted_exec_from)
    then have "accounted s'' + {#ltopic l#} \<subseteq># accounted s"
      using lost by (metis mset_subset_eq_mono_add_right_cancel)
    moreover have "accounted s \<subseteq># mset (topics_of c)" using acc by (rule inv_acc_sub)
    moreover have "emitted s'' + {#ltopic l#} \<subseteq># accounted s'' + {#ltopic l#}"
      by (simp add: accounted_def)
    ultimately have "emitted s'' + {#ltopic l#} \<subseteq># mset (topics_of c)"
      by (meson subset_mset.order_trans)
    then show ?thesis using exited_forever [OF wf' ex run] by simp
  qed
  show ?thesis using st ex(2) later by (intro exI [of _ ?s']) simp
qed

lemma cancelled_single_run:
  "\<exists>s l. exec (demo_config\<lparr>queueTopics := Some [''A'']\<rparr>) False [Cancel] = Some s \<and>
     0 < length (workers s) \<and> workers s ! 0 = Busy AwaitGenerate l \<and> aborted s \<and>
     generatedArticles s = [] \<and> completedCount s = 0 \<and> activeTasks s = 0"
  by (simp add: demo_config_def model_defs)

text \<open>A witness for C4: one topic, cancelled while generating, aborted: no entry.\<close>

theorem abort_is_not_a_failure_witness:
  "map_option entry_count
     (exec (demo_config\<lparr>queueTopics := Some [''A'']\<rparr>) False
        ([Cancel] @ [Resume 0 (Rejected abort_error)])) = Some 0"
proof -
  obtain s l where s: "exec (demo_config\<lparr>queueTopics := Some [''A'']\<rparr>) False [Cancel] = Some s"
    "0 < length (workers s)" "workers s ! 0 = Busy AwaitGenerate l" "aborted s"
    "generatedArticles s = []"
    using cancelled_single_run by blast
  have e: "err_name abort_error = ''AbortError''" by (simp add: abort_error_def)
  obtain s' where "step (demo_config\<lparr>queueTopics := Some [''A'']\<rparr>) (Resume 0 (Rejected abort_error)) s = Some s'"
    "generatedArticles s' = generatedArticles s"
    using abort_is_not_a_failure [OF s(1,2,3) e s(4)] by blast
  moreover have "exec (demo_config\<lparr>queueTopics := Some [''A'']\<rparr>) False
        ([Cancel] @ [Resume 0 (Rejected abort_error)]) =
      step (demo_config\<lparr>queueTopics := Some [''A'']\<rparr>) (Resume 0 (Rejected abort_error)) s"
    by (simp only: exec_snoc s(1) option.case)
  ultimately show ?thesis using s(5) by (simp add: entry_count_def)
qed

text \<open>
  Claim C10. On the AbortError return no entry is appended, but the \<^verbatim>\<open>finally\<close> block
  has run: \<open>completedCount\<close> and the completed count of the progress are incremented and
  \<open>activeTasks\<close> is decremented. From then on, in every later state of the run, the
  completed count exceeds the number of entries.
\<close>

theorem abort_still_counts_as_completed:
  assumes "exec c k es = Some s" "i < length (workers s)"
    "workers s ! i = Busy AwaitGenerate l" "err_name err = ''AbortError''" "aborted s"
  shows "\<exists>s'. step c (Resume i (Rejected err)) s = Some s' \<and>
           generatedArticles s' = generatedArticles s \<and>
           completedCount s' = completedCount s + 1 \<and>
           completed (bulkProgress s') = completedCount s + 1 \<and>
           activeTasks s' = activeTasks s - 1 \<and>
           (\<forall>es' s''. exec_from c es' s' = Some s'' \<longrightarrow>
              length (generatedArticles s'') < completedCount s'')"
proof -
  let ?s1 = "exit_worker i (finally_block i s)"
  let ?s' = "check_done ?s1"
  have ne: "topics_of c \<noteq> []" using busy_topics_nonempty [OF assms(1,2)] .
  have wf: "inv_wf c s" and acc: "inv_acc c (aborted_topics c k es) s"
    using reachable_inv [OF ne assms(1)] by simp_all
  have st: "step c (Resume i (Rejected err)) s = Some ?s'"
    using assms(2-5) by (rule step_abort)
  have "\<not> ctrl_ref s" using wf assms(5) by (simp add: inv_wf_def)
  then have nc: "\<not> ctrl_ref ?s1" by simp
  have prog: "completed (bulkProgress ?s') = completedCount s + 1"
    "activeTasks ?s' = activeTasks s - 1"
    using check_done_no_ctrl [OF nc] by simp_all
  have le: "length (generatedArticles s) \<le> completedCount s"
    using acc by (simp add: inv_acc_def)
  have later: "length (generatedArticles s'') < completedCount s''"
    if run: "exec_from c es' ?s' = Some s''" for es' s''
    using gap_exec_from [OF run] le by simp
  show ?thesis using st prog later by (intro exI [of _ ?s']) simp
qed

text \<open>
  A witness for C10: after the abort the count is 1 with no entry, and the number of
  active tasks, reset to 0 by the cancel action, is \<open>-1\<close>.
\<close>

theorem abort_still_counts_as_completed_witness:
  "map_option completedCount
     (exec (demo_config\<lparr>queueTopics := Some [''A'']\<rparr>) False
        ([Cancel] @ [Resume 0 (Rejected abort_error)])) = Some 1 \<and>
   map_option activeTasks
     (exec (demo_config\<lparr>queueTopics := Some [''A'']\<rparr>) False
        ([Cancel] @ [Resume 0 (Rejected abort_error)])) = Some (- 1)"
proof -
  obtain s l where s: "exec (demo_config\<lparr>queueTopics := Some [''A'']\<rparr>) False [Cancel] = Some s"
    "0 < length (workers s)" "workers s ! 0 = Busy AwaitGenerate l" "aborted s"
    "completedCount s = 0" "activeTasks s = 0"
    using cancelled_single_run by blast
  have e: "err_name abort_error = ''AbortError''" by (simp add: abort_error_def)
  obtain s' where "step (demo_config\<lparr>queueTopics := Some [''A'']\<rparr>) (Resume 0 (Rejected abort_error)) s = Some s'"
    "completedCount s' = completedCount s + 1" "activeTasks s' = activeTasks s - 1"
    using abort_still_counts_as_completed [OF s(1,2,3) e s(4)] by blast
  moreover have "exec (demo_config\<lparr>queueTopics := Some [''A'']\<rparr>) False
        ([Cancel] @ [Resume 0 (Rejected abort_error)]) =
      step (demo_config\<lparr>queueTopics := Some [''A'']\<rparr>) (Resume 0 (Rejected abort_error)) s"
    by (simp only: exec_snoc s(1) option.case)
  ultimately show ?thesis using s(5,6) by simp
qed

text \<open>
  Claim C3, as amended. An empty topic list is the only error that reaches the handler of
  the batch: it stores the message, and nothing is generated. In a run over a non-empty
  list the error state stays empty. When a generation call rejects with an error other
  than AbortError, the worker appends an entry with status \<open>Failed\<close> whose content is the
  text \<open>Error generating content: \<close> followed by the error message, no other worker is
  touched, and the worker goes on with the next topic of the queue. An error of a keyword
  or link call is swallowed: no entry is appended and the worker stays on its topic.
\<close>

theorem provider_errors_become_failed_entries:
  assumes "exec c k es = Some s"
  shows "(topics_of c = [] \<longrightarrow>
            error s = Some ''No topics provided for bulk generation'' \<and>
            generatedArticles s = [] \<and> calls s = [] \<and> run_finished s) \<and>
         (topics_of c \<noteq> [] \<longrightarrow> error s = None) \<and>
         (\<forall>i l err. i < length (workers s) \<and> workers s ! i = Busy AwaitGenerate l \<and>
              err_name err \<noteq> ''AbortError'' \<longrightarrow>
            (\<exists>s'. step c (Resume i (Rejected err)) s = Some s' \<and>
               generatedArticles s' = generatedArticles s @
                 [\<lparr> title = ltopic l, content = ''Error generating content: '' @ err_message err,
                     sources = None, status = Failed, strategy = None \<rparr>] \<and>
               error s' = None \<and> length (workers s') = length (workers s) \<and>
               (\<forall>j < length (workers s). j \<noteq> i \<longrightarrow> workers s' ! j = workers s ! j) \<and>
               (\<forall>t rest. queue s = t # rest \<and> t \<noteq> [] \<and> \<not> aborted s \<longrightarrow>
                  (\<exists>p l'. workers s' ! i = Busy p l' \<and> ltopic l' = t)))) \<and>
         (\<forall>i p l err. i < length (workers s) \<and> workers s ! i = Busy p l \<and>
              p \<noteq> AwaitDelay \<and> p \<noteq> AwaitGenerate \<longrightarrow>
            (\<exists>s' p' l'. step c (Resume i (Rejected err)) s = Some s' \<and>
               generatedArticles s' = generatedArticles s \<and> error s' = error s \<and>
               workers s' ! i = Busy p' l' \<and> ltopic l' = ltopic l))"
proof -
  have empty: "topics_of c = [] \<longrightarrow>
            error s = Some ''No topics provided for bulk generation'' \<and>
            generatedArticles s = [] \<and> calls s = [] \<and> run_finished s"
    using empty_run [OF _ assms] by (simp add: run_finished_def)
  have quiet: "topics_of c \<noteq> [] \<longrightarrow> error s = None"
    using reachable_inv [OF _ assms] by (simp add: inv_wf_def)
  have generation: "\<exists>s'. step c (Resume i (Rejected err)) s = Some s' \<and>
               generatedArticles s' = generatedArticles s @
                 [\<lparr> title = ltopic l, content = ''Error generating content: '' @ err_message err,
                     sources = None, status = Failed, strategy = None \<rparr>] \<and>
               error s' = None \<and> length (workers s') = length (workers s) \<and>
               (\<forall>j < length (workers s). j \<noteq> i \<longrightarrow> workers s' ! j = workers s ! j) \<and>
               (\<forall>t rest. queue s = t # rest \<and> t \<noteq> [] \<and> \<not> aborted s \<longrightarrow>
                  (\<exists>p l'. workers s' ! i = Busy p l' \<and> ltopic l' = t))"
    if h: "i < length (workers s) \<and> workers s ! i = Busy AwaitGenerate l \<and>
              err_name err \<noteq> ''AbortError''" for i l err
  proof -
    let ?a = "failed_article l err"
    let ?s1 = "report i ?a s"
    let ?s' = "check_done (loop_head c i ?s1)"
    have ne: "topics_of c \<noteq> []" using busy_topics_nonempty [OF assms, of i] h by blast
    have wf: "inv_wf c s" using reachable_inv [OF ne assms] by simp
    have st: "step c (Resume i (Rejected err)) s = Some ?s'"
      using h by (intro step_failed) simp_all
    obtain w where w: "workers (loop_head c i ?s1) = (workers ?s1)[i := w]"
      using loop_head_worker by blast
    have others: "\<forall>j < length (workers s). j \<noteq> i \<longrightarrow> workers ?s' ! j = workers s ! j"
      using w by simp
    have err: "error ?s' = None" using wf by (simp add: inv_wf_def)
    have "\<exists>p l'. workers ?s' ! i = Busy p l' \<and> ltopic l' = t"
      if q: "queue s = t # rest \<and> t \<noteq> [] \<and> \<not> aborted s" for t rest
    proof (cases rule: loop_head_cases [of ?s1 c i])
      case leave
      then show ?thesis using q by simp
    next
      case (falsy rest')
      then show ?thesis using q by simp
    next
      case (claim t' rest' x)
      then have "t' = t" using q by simp
      then show ?thesis using claim h by (simp add: susp_topic_def)
    qed
    then show ?thesis
      using st others err by (intro exI [of _ ?s']) (simp add: failed_article_def)
  qed
  have stages: "\<exists>s' p' l'. step c (Resume i (Rejected err)) s = Some s' \<and>
               generatedArticles s' = generatedArticles s \<and> error s' = error s \<and>
               workers s' ! i = Busy p' l' \<and> ltopic l' = ltopic l"
    if h: "i < length (workers s) \<and> workers s ! i = Busy p l \<and>
              p \<noteq> AwaitDelay \<and> p \<noteq> AwaitGenerate" for i p l err
  proof -
    obtain x where x: "pipeline_step c s p l (Rejected err) = Some x"
      using stage_error_caught [of p c s l err] h by auto
    have st: "step c (Resume i (Rejected err)) s = Some (check_done (suspend i x s))"
      using h x by (intro step_stage) simp_all
    have "ltopic (fst (snd x)) = ltopic l"
      using pipeline_step_topic [OF x] by (simp add: susp_topic_def)
    then show ?thesis
      using st h by (intro exI [of _ "check_done (suspend i x s)"] exI [of _ "fst x"]
          exI [of _ "fst (snd x)"]) simp
  qed
  show ?thesis
    using empty quiet generation stages by (intro conjI allI impI) blast+
qed

lemma demo_start:
  "\<exists>s l. exec demo_config False [] = Some s \<and> 1 < length (workers s) \<and>
     workers s ! 1 = Busy AwaitGenerate l \<and> ltopic l = ''B'' \<and> generatedArticles s = []"
  by (simp add: demo_config_def model_defs)

text \<open>A witness for C3: the second topic fails, its entry carries the prefixed message.\<close>

theorem provider_errors_become_failed_entries_witness:
  "map_option contents (exec demo_config False ([] @ [Resume 1 (Rejected boom)])) =
     Some [''Error generating content: boom''] \<and>
   map_option statuses (exec demo_config False ([] @ [Resume 1 (Rejected boom)])) = Some [Failed]"
proof -
  obtain s l where s: "exec demo_config False [] = Some s" "1 < length (workers s)"
    "workers s ! 1 = Busy AwaitGenerate l" "ltopic l = ''B''" "generatedArticles s = []"
    using demo_start by blast
  have e: "err_name boom \<noteq> ''AbortError''" by (simp add: boom_def)
  obtain s' where "step demo_config (Resume 1 (Rejected boom)) s = Some s'"
    "generatedArticles s' = generatedArticles s @
       [\<lparr> title = ltopic l, content = ''Error generating content: '' @ err_message boom,
           sources = None, status = Failed, strategy = None \<rparr>]"
    using provider_errors_become_failed_entries [OF s(1)] s(2,3) e by blast
  moreover have "exec demo_config False ([] @ [Resume 1 (Rejected boom)]) =
      step demo_config (Resume 1 (Rejected boom)) s"
    by (simp only: exec_snoc s(1) option.case)
  ultimately show ?thesis
    using s(5) by (simp add: contents_def statuses_def boom_def)
qed

text \<open>
  Counterexample to claim C3 as stated (the content of the failed entry is the error
  message): for the message \<open>boom\<close> the content is \<open>Error generating content: boom\<close>.
\<close>

theorem failed_content_counterexample:
  "map_option contents
     (exec (demo_config\<lparr>queueTopics := Some [''A'']\<rparr>) False [Resume 0 (Rejected boom)]) =
     Some [''Error generating content: boom''] \<and>
   [''Error generating content: boom''] \<noteq> [err_message boom]"
  by (simp add: demo_config_def boom_def contents_def model_defs)

section \<open>After cancellation (claim C7)\<close>












section \<open>The research cache (claims C5, C8, C9)\<close>

lemma prescan_is_scan:
  assumes "prescan_call c = Some k"
  shows "is_link_scan k" "\<not> is_brand_call k" "gen_config k = None"
  using assms by (auto simp: prescan_call_def split: if_splits)

lemma gen_stage_ok:
  assumes "cachedInternalLinks s \<noteq> [] \<longrightarrow> topicInternalLinks l = take 3 (cachedInternalLinks s)"
  shows "susp_ok c (cachedInternalLinks s) (gen_stage c s l)"
  using assms
  by (simp add: susp_ok_def gen_stage_def call_ok_def gen_ok_def generateWithFallback_def
      singleConfig_def)

lemma ext_stage_ok:
  assumes "cachedInternalLinks s \<noteq> [] \<longrightarrow> topicInternalLinks l = take 3 (cachedInternalLinks s)"
  shows "susp_ok c (cachedInternalLinks s) (ext_stage c s l)"
proof (cases "enableExternalLinks c")
  case True
  then show ?thesis using assms by (simp add: ext_stage_def susp_ok_def call_ok_def)
next
  case False
  then show ?thesis using gen_stage_ok [OF assms] by (simp add: ext_stage_def)
qed

lemma link_stage_ok:
  assumes "autoOptimize c" "topicInternalLinks l = default_links (internalLinks c)"
    "cachedInternalLinks s \<noteq> [] \<longrightarrow> has_website c"
  shows "susp_ok c (cachedInternalLinks s) (link_stage c s l)"
proof (cases "cachedInternalLinks s = []")
  case True
  then have e: "susp_ok c (cachedInternalLinks s) (ext_stage c s l')" for l'
    by (intro ext_stage_ok) simp
  show ?thesis
    using assms True e
    by (auto simp: link_stage_def susp_ok_def call_ok_def)
next
  case False
  then have "link_stage c s l =
      ext_stage c s (l\<lparr>topicInternalLinks := take 3 (cachedInternalLinks s)\<rparr>)"
    using assms(3) by (simp add: link_stage_def)
  then show ?thesis by (simp add: ext_stage_ok)
qed

lemma try_body_ok:
  assumes "cachedInternalLinks s \<noteq> [] \<longrightarrow> autoOptimize c"
  shows "susp_ok c (cachedInternalLinks s) (try_body c s t)"
proof (cases "autoOptimize c")
  case True
  then show ?thesis by (simp add: try_body_def susp_ok_def call_ok_def init_locals_def)
next
  case False
  then have "cachedInternalLinks s = []" using assms by auto
  then have "susp_ok c (cachedInternalLinks s) (gen_stage c s (init_locals c t))"
    by (intro gen_stage_ok) simp
  then show ?thesis using False by (simp add: try_body_def)
qed

lemma pipeline_step_ok:
  assumes "wl_ok c (cachedInternalLinks s) (Busy p l)"
    "cachedInternalLinks s \<noteq> [] \<longrightarrow> has_website c \<and> autoOptimize c"
    "pipeline_step c s p l r = Some x"
  shows "susp_ok c (cachedInternalLinks s) x"
proof (cases p)
  case AwaitDelay
  then have "x = try_body c s (ltopic l)"
    using assms(3) by (auto simp: pipeline_step_def split: response.splits payload.splits)
  then show ?thesis using assms(2) by (simp add: try_body_ok)
next
  case AwaitPrimaryKw
  then have "(\<exists>ks. x = (AwaitNlpKw, l\<lparr>topicPrimaryKeywords := ks\<rparr>,
                     [if usesDeepSeekKeywords c then GenerateNLPKeywordsDeepSeek (ltopic l)
                      else GenerateNLPKeywords (ltopic l)])) \<or> x = link_stage c s l"
    using assms(3) by (auto simp: pipeline_step_def split: response.splits payload.splits)
  then show ?thesis
  proof
    assume "\<exists>ks. x = (AwaitNlpKw, l\<lparr>topicPrimaryKeywords := ks\<rparr>,
                     [if usesDeepSeekKeywords c then GenerateNLPKeywordsDeepSeek (ltopic l)
                      else GenerateNLPKeywords (ltopic l)])"
    then show ?thesis using assms(1) AwaitPrimaryKw by (auto simp: susp_ok_def call_ok_def)
  next
    assume "x = link_stage c s l"
    then show ?thesis using assms(1,2) AwaitPrimaryKw by (simp add: link_stage_ok)
  qed
next
  case AwaitNlpKw
  then have "(\<exists>ks. x = link_stage c s (l\<lparr>topicNLPKeywords := ks\<rparr>)) \<or> x = link_stage c s l"
    using assms(3) by (auto simp: pipeline_step_def split: response.splits payload.splits)
  moreover have "susp_ok c (cachedInternalLinks s) (link_stage c s l')"
    if "topicInternalLinks l' = topicInternalLinks l" for l'
    by (rule link_stage_ok) (use assms(1,2) AwaitNlpKw that in simp_all)
  ultimately show ?thesis by auto
next
  case AwaitIntLinks
  then have "\<exists>l'. x = ext_stage c s l'"
    using assms(3) by (auto simp: pipeline_step_def split: response.splits payload.splits)
  moreover have "susp_ok c (cachedInternalLinks s) (ext_stage c s l')" for l'
    by (rule ext_stage_ok) (use assms(1) AwaitIntLinks in simp)
  ultimately show ?thesis by blast
next
  case AwaitExtLinks
  then have "(\<exists>ls. x = gen_stage c s (l\<lparr>topicExternalLinks := ls\<rparr>)) \<or> x = gen_stage c s l"
    using assms(3) by (auto simp: pipeline_step_def split: response.splits payload.splits)
  moreover have "susp_ok c (cachedInternalLinks s) (gen_stage c s l')"
    if "topicInternalLinks l' = topicInternalLinks l" for l'
    by (rule gen_stage_ok) (use assms(1) AwaitExtLinks that in simp)
  ultimately show ?thesis by auto
next
  case AwaitGenerate
  then show ?thesis using assms(3) by (simp add: pipeline_step_def)
qed

lemma list_all_update:
  "list_all P xs \<Longrightarrow> P y \<Longrightarrow> list_all P (xs[i := y])"
  using set_update_subset_insert [of xs i y] by (auto simp: list_all_iff)

lemma inv_cache_cong:
  assumes "cachedInternalLinks s' = cachedInternalLinks s" "workers s' = workers s"
    "calls s' = calls s"
  shows "inv_cache c s' = inv_cache c s"
  using assms by (simp add: inv_cache_def link_scans_def brand_calls_def gen_configs_def)

lemma inv_cache_worker:
  assumes "inv_cache c s" "cachedInternalLinks s' = cachedInternalLinks s"
    "workers s' = (workers s)[i := w]" "wl_ok c (cachedInternalLinks s) w" "calls s' = calls s"
  shows "inv_cache c s'"
  using assms by (simp add: inv_cache_def link_scans_def brand_calls_def gen_configs_def
      list_all_update)

lemma calls_ok_filters:
  assumes "list_all (call_ok cache) ks"
  shows "filter is_brand_call ks = []" "cache \<noteq> [] \<Longrightarrow> filter is_link_scan ks = []"
    "list_all (gen_ok cache) (List.map_filter gen_config ks)"
  using assms
  by (induction ks) (auto simp: call_ok_def List.map_filter_simps split: option.splits)

lemma map_filter_append:
  "List.map_filter f (xs @ ys) = List.map_filter f xs @ List.map_filter f ys"
  by (simp add: List.map_filter_def)

lemma inv_cache_suspend:
  assumes "inv_cache c s" "susp_ok c (cachedInternalLinks s) x"
  shows "inv_cache c (suspend i x s)"
proof -
  let ?ks = "snd (snd x)"
  have ok: "list_all (call_ok (cachedInternalLinks s)) ?ks"
    and w: "wl_ok c (cachedInternalLinks s) (Busy (fst x) (fst (snd x)))"
    using assms(2) by (simp_all add: susp_ok_def)
  note f = calls_ok_filters [OF ok]
  show ?thesis
    using assms(1) w f
    by (simp add: inv_cache_def link_scans_def brand_calls_def gen_configs_def
        list_all_update map_filter_append)
qed

lemma inv_cache_loop_head:
  assumes "inv_cache c s"
  shows "inv_cache c (loop_head c i s)"
proof (cases rule: loop_head_cases [of s c i])
  case leave
  then show ?thesis using assms by (auto intro: inv_cache_worker [where s = s and i = i and w = Exited])
next
  case (falsy rest)
  then show ?thesis using assms by (auto intro: inv_cache_worker [where s = s and i = i and w = Exited])
next
  case (claim t rest x)
  let ?s0 = "s\<lparr>queue := rest, activeTasks := activeTasks s + 1\<rparr>"
  have s0: "inv_cache c ?s0" using assms inv_cache_cong [of ?s0 s c] by simp
  have "cachedInternalLinks s \<noteq> [] \<longrightarrow> autoOptimize c" using assms by (simp add: inv_cache_def)
  then have "susp_ok c (cachedInternalLinks ?s0) (try_body c ?s0 t)"
    by (intro try_body_ok) simp
  moreover have "susp_ok c (cachedInternalLinks ?s0) (AwaitDelay, init_locals c t, [])"
    by (simp add: susp_ok_def)
  ultimately have "susp_ok c (cachedInternalLinks ?s0) x" using claim(6) by auto
  then show ?thesis using claim(4) inv_cache_suspend [OF s0] by simp
qed

lemma inv_pre_started:
  "main s = MainWorkers \<or> main s = MainDone \<Longrightarrow> inv_pre c s"
  by (auto simp: inv_pre_def)

lemma inv_cache_spawn:
  assumes "inv_cache c s" "workers s = []"
  shows "inv_cache c (spawn c s) \<and> inv_pre c (spawn c s)"
proof -
  have "inv_cache c (spawn c s)"
  proof (rule spawn_invariant)
    have "list_all (wl_ok c (cachedInternalLinks s)) (replicate (pool_size c) Idle)"
      by (simp add: list_all_iff)
    then show "inv_cache c (s\<lparr>workers := replicate (pool_size c) Idle\<rparr>)"
      using assms
      by (simp add: inv_cache_def link_scans_def brand_calls_def gen_configs_def)
  next
    fix i x
    assume "inv_cache c x"
    then show "inv_cache c (loop_head c i x)" by (rule inv_cache_loop_head)
  next
    fix x
    assume "inv_cache c x"
    then show "inv_cache c (check_done (x\<lparr>main := MainWorkers\<rparr>))"
      using inv_cache_cong [of "check_done (x\<lparr>main := MainWorkers\<rparr>)" x c] by simp
  qed
  then show ?thesis using spawn_main [of c s] inv_pre_started by blast
qed

lemma inv_cache_prefetch_links:
  assumes "cachedInternalLinks s = []" "workers s = []" "link_scans s = []" "gen_configs s = []"
    "length (brand_calls s) \<le> 1"
  shows "inv_cache c (prefetch_links c s) \<and> inv_pre c (prefetch_links c s)"
proof (cases rule: prefetch_links_cases [of c s])
  case (scan k)
  note k = prescan_is_scan [OF scan(3)]
  show ?thesis
    using assms scan k
    by (simp add: inv_cache_def inv_pre_def link_scans_def brand_calls_def gen_configs_def
        prescan_list_def map_filter_append List.map_filter_simps)
next
  case skip
  have "inv_cache c s"
    using assms by (simp add: inv_cache_def)
  then show ?thesis using skip(2) inv_cache_spawn [of c s] assms(2) by simp
qed

lemma inv_cache_handleGenerate:
  assumes "topics_of c \<noteq> []"
  shows "inv_cache c (handleGenerate c k) \<and> inv_pre c (handleGenerate c k)"
proof -
  let ?s0 = "fresh\<lparr> bulkProgress := \<lparr>completed = 0, total = length (topics_of c)\<rparr>,
                  queue := topics_of c \<rparr>"
  let ?s1 = "?s0\<lparr>main := MainBrand, calls := calls ?s0 @ [AnalyzeBrandWebsite (the_website c)]\<rparr>"
  have "inv_cache c (prefetch_links c ?s0) \<and> inv_pre c (prefetch_links c ?s0)"
    by (rule inv_cache_prefetch_links)
       (simp_all add: fresh_def link_scans_def brand_calls_def gen_configs_def
          List.map_filter_simps)
  moreover have "inv_cache c ?s1 \<and> inv_pre c ?s1"
    by (simp add: inv_cache_def inv_pre_def fresh_def link_scans_def brand_calls_def
        gen_configs_def List.map_filter_simps)
  ultimately show ?thesis
    using assms by (simp add: handleGenerate_def prefetch_brand_def)
qed

lemma inv_pre_check_done:
  assumes "main s = MainWorkers"
  shows "inv_pre c (check_done s)"
  using check_done_main(3) [OF assms] by (rule inv_pre_started)

lemma inv_cache_step:
  assumes "inv_cache c s \<and> inv_pre c s" "inv_wf c s" "step c e s = Some s'"
  shows "inv_cache c s' \<and> inv_pre c s'"
proof -
  have ic: "inv_cache c s" and ip: "inv_pre c s" using assms(1) by simp_all
  have pre: "main s = MainBrand \<or> main s = MainLinks \<Longrightarrow> workers s = []"
    using assms(2) by (simp add: inv_wf_def)
  have co: "cachedInternalLinks s \<noteq> [] \<longrightarrow> has_website c \<and> autoOptimize c"
    using ic by (simp add: inv_cache_def)
  have wl: "wl_ok c (cachedInternalLinks s) (workers s ! i)" if "i < length (workers s)" for i
    using ic that by (simp add: inv_cache_def list_all_length)
  from assms(3) show ?thesis
  proof (cases rule: step_cases)
    case cancel
    have "inv_cache c (handleStopGeneration s) = inv_cache c s"
      by (rule inv_cache_cong) simp_all
    moreover have "inv_pre c (handleStopGeneration s) = inv_pre c s"
      by (simp add: inv_pre_def link_scans_def gen_configs_def)
    ultimately show ?thesis using cancel ic ip by simp
  next
    case (brand r s0)
    then obtain b where s0: "s0 = s\<lparr>cachedBrandResearch := b\<rparr>" by blast
    have "inv_cache c (prefetch_links c s0) \<and> inv_pre c (prefetch_links c s0)"
      by (rule inv_cache_prefetch_links)
         (use ic ip pre brand(2) s0 in
           \<open>simp_all add: inv_pre_def inv_cache_def link_scans_def gen_configs_def brand_calls_def\<close>)
    then show ?thesis using brand by simp
  next
    case (links r ls)
    let ?s0 = "s\<lparr>cachedInternalLinks := ls\<rparr>"
    have "inv_cache c ?s0"
      using ic ip pre links(2)
      by (simp add: inv_pre_def inv_cache_def link_scans_def gen_configs_def brand_calls_def)
    then have "inv_cache c (spawn c ?s0) \<and> inv_pre c (spawn c ?s0)"
      by (rule inv_cache_spawn) (use pre links(2) in simp)
    then show ?thesis using links by simp
  next
    case (stage i r p l x)
    have "susp_ok c (cachedInternalLinks s) x"
      using wl [OF stage(2)] stage(3) co stage(4) by (intro pipeline_step_ok [of c s p l r]) simp_all
    then have "inv_cache c (suspend i x s)" using ic by (intro inv_cache_suspend)
    moreover have "inv_cache c (check_done (suspend i x s)) = inv_cache c (suspend i x s)"
      by (rule inv_cache_cong) simp_all
    moreover have "main (suspend i x s) = MainWorkers"
      using busy_main [OF assms(2) stage(2,3)] by simp
    ultimately show ?thesis using stage inv_pre_check_done by simp
  next
    case (reported i r l a)
    have "inv_cache c (report i a s)"
      using ic by (rule inv_cache_worker [where i = i and w = Idle]) simp_all
    then have "inv_cache c (loop_head c i (report i a s))" by (rule inv_cache_loop_head)
    moreover have "inv_cache c (check_done (loop_head c i (report i a s))) =
        inv_cache c (loop_head c i (report i a s))"
      by (rule inv_cache_cong) simp_all
    moreover have "main (loop_head c i (report i a s)) = MainWorkers"
      using busy_main [OF assms(2) reported(2,3)] by simp
    ultimately show ?thesis using reported inv_pre_check_done by simp
  next
    case (abandoned i r l err)
    have "inv_cache c (exit_worker i (finally_block i s))"
      using ic by (rule inv_cache_worker [where i = i and w = Exited]) simp_all
    moreover have "inv_cache c (check_done (exit_worker i (finally_block i s))) =
        inv_cache c (exit_worker i (finally_block i s))"
      by (rule inv_cache_cong) simp_all
    moreover have "main (exit_worker i (finally_block i s)) = MainWorkers"
      using busy_main [OF assms(2) abandoned(2,3)] by simp
    ultimately show ?thesis using abandoned inv_pre_check_done by simp
  qed
qed

lemma reachable_cache:
  assumes "topics_of c \<noteq> []" "exec c k es = Some s"
  shows "inv_cache c s \<and> inv_pre c s \<and> inv_wf c s"
proof -
  let ?Q = "\<lambda>x. (inv_cache c x \<and> inv_pre c x) \<and> inv_wf c x"
  have "exec_from c es (handleGenerate c k) = Some s" using assms(2) by (simp add: exec_def)
  moreover have "?Q (handleGenerate c k)"
    using assms(1) inv_cache_handleGenerate inv_wf_handleGenerate by simp
  ultimately have "?Q s"
    by (rule exec_from_invariant) (use inv_cache_step inv_wf_step in blast)
  then show ?thesis by simp
qed

subsection \<open>The cached brand analysis\<close>







lemma brand_ok_cong:
  "cachedBrandResearch s' = cachedBrandResearch s \<Longrightarrow> brand_ok s' x = brand_ok s x"
  by (simp add: brand_ok_def)








lemma worker_ok:
  assumes "inv_cache c s" "i < length (workers s)" "workers s ! i = Busy p l"
  shows "wl_ok c (cachedInternalLinks s) (Busy p l)"
proof -
  have "wl_ok c (cachedInternalLinks s) (workers s ! i)"
    using assms(1,2) by (simp add: inv_cache_def list_all_length)
  then show ?thesis using assms(3) by simp
qed




lemma cached_site_run:
  "\<exists>s cfg. exec site_config False
       [MainResume (Resolved (PLinks demo_links)), Resume 0 (Resolved (PKeywords [''k''])),
        Resume 0 (Resolved (PKeywords [''n'']))] = Some s \<and>
     cachedInternalLinks s = demo_links \<and> gen_configs s = [cfg]"
  by (simp add: site_config_def demo_config_def demo_links_def mk_link_def gen_configs_def
      List.map_filter_simps model_defs)



text \<open>
  Claim C8. Whenever the cache of internal links is populated, the batch has issued
  exactly one link scan, seeded with the first topic of the list; every configuration
  handed to a generation call carries the whole cached list as \<^verbatim>\<open>cachedInternalLinks\<close>
  and its first three links as \<^verbatim>\<open>internalLinks\<close>, the same for every topic; and no worker
  awaits a scan of its own.
\<close>

theorem cached_links_reused:
  assumes "exec c k es = Some s" "topics_of c = t # ts" "t \<noteq> []"
    "cachedInternalLinks s \<noteq> []"
  shows "(link_scans s = [ScanForInternalLinksTavily (the_website c) t] \<or>
          link_scans s =
            [ScanForInternalLinks (the_website c) t (primaryKeywords c) (deepResearch c)]) \<and>
         (\<forall>cfg \<in> set (gen_configs s).
            cfgInternalLinks cfg = Some (cachedInternalLinks s) \<and>
            internalLinks cfg = Some (take 3 (cachedInternalLinks s))) \<and>
         (\<forall>i p l. i < length (workers s) \<and> workers s ! i = Busy p l \<longrightarrow>
            p \<noteq> AwaitIntLinks \<and>
            (p = AwaitExtLinks \<or> p = AwaitGenerate \<longrightarrow>
               topicInternalLinks l = take 3 (cachedInternalLinks s)))"
proof -
  have ne: "topics_of c \<noteq> []" using assms(2) by simp
  have ic: "inv_cache c s" using reachable_cache [OF ne assms(1)] by simp
  have seed: "seed_topic c = t" using assms(2,3) by (simp add: seed_topic_def)
  have "prescan_call c \<noteq> None" "link_scans s = prescan_list c"
    using ic assms(4) by (simp_all add: inv_cache_def)
  then have scans: "link_scans s = [ScanForInternalLinksTavily (the_website c) t] \<or>
          link_scans s =
            [ScanForInternalLinks (the_website c) t (primaryKeywords c) (deepResearch c)]"
    using seed by (auto simp: prescan_list_def prescan_call_def split: if_splits)
  have "list_all (gen_ok (cachedInternalLinks s)) (gen_configs s)"
    using ic by (simp add: inv_cache_def)
  then have gens: "\<forall>cfg \<in> set (gen_configs s).
            cfgInternalLinks cfg = Some (cachedInternalLinks s) \<and>
            internalLinks cfg = Some (take 3 (cachedInternalLinks s))"
    using assms(4) by (simp add: list_all_iff gen_ok_def)
  have "p \<noteq> AwaitIntLinks \<and>
            (p = AwaitExtLinks \<or> p = AwaitGenerate \<longrightarrow>
               topicInternalLinks l = take 3 (cachedInternalLinks s))"
    if "i < length (workers s) \<and> workers s ! i = Busy p l" for i p l
  proof -
    have "wl_ok c (cachedInternalLinks s) (Busy p l)"
      using ic that worker_ok by blast
    then show ?thesis using assms(4) by (cases p) auto
  qed
  then show ?thesis using scans gens by blast
qed

text \<open>A witness for C8: four cached links, the generation call gets the first three.\<close>

theorem cached_links_reused_witness:
  "map_option (map internalLinks \<circ> gen_configs)
     (exec site_config False
       [MainResume (Resolved (PLinks demo_links)), Resume 0 (Resolved (PKeywords [''k''])),
        Resume 0 (Resolved (PKeywords [''n'']))]) =
     Some [Some [mk_link ''one'' ''/1'', mk_link ''two'' ''/2'', mk_link ''three'' ''/3'']]"
proof -
  obtain s cfg where s: "exec site_config False
       [MainResume (Resolved (PLinks demo_links)), Resume 0 (Resolved (PKeywords [''k''])),
        Resume 0 (Resolved (PKeywords [''n'']))] = Some s"
    "cachedInternalLinks s = demo_links" "gen_configs s = [cfg]"
    using cached_site_run by blast
  have t: "topics_of site_config = ''A'' # [''B'', ''C'']" "''A'' \<noteq> []"
    by (simp_all add: site_config_def demo_config_def topics_of_def)
  have "cachedInternalLinks s \<noteq> []" using s(2) by (simp add: demo_links_def)
  then have "internalLinks cfg = Some (take 3 (cachedInternalLinks s))"
    using cached_links_reused [OF s(1) t] s(3) by simp
  then show ?thesis using s by (simp add: demo_links_def)
qed




end
